theory Spec2Isabelle
  imports Main "HOL-Library.Word"
begin

section \<open>Machine model\<close>

text \<open>
  The ring buffer of \<^verbatim>\<open>RingBuffer/RingBuffer.cpp\<close> is C with a light C++ flavour. Its
  cursors and sizes are \<^verbatim>\<open>size_t\<close>, an unsigned machine integer whose arithmetic wraps
  around; on the usual 64-bit targets it has 64 bits. Bytes are \<^verbatim>\<open>uint8_t\<close>.
\<close>

type_synonym BYTE = "8 word"
type_synonym size_t = "64 word"

text \<open>
  What C leaves undefined is a value of the model: a remainder by zero, an access through
  the null pointer, an access outside a block.
\<close>

datatype fault = DivideByZero | NullPointer | OutOfBounds

definition and_then :: "fault + 'a \<Rightarrow> ('a \<Rightarrow> fault + 'b) \<Rightarrow> fault + 'b" where
  "and_then m f = (case m of Inl e \<Rightarrow> Inl e | Inr x \<Rightarrow> f x)"

text \<open>The operator \<^verbatim>\<open>%\<close> on \<^verbatim>\<open>size_t\<close>.\<close>

definition umod :: "size_t \<Rightarrow> size_t \<Rightarrow> fault + size_t" where
  "umod a b = (if b = 0 then Inl DivideByZero else Inr (a mod b))"

text \<open>
  A pointer to a block of bytes is the block's content, or \<open>None\<close> for \<^verbatim>\<open>nullptr\<close>.
  \<open>deref\<close> is what every access through the pointer does first.
\<close>

definition deref :: "BYTE list option \<Rightarrow> fault + BYTE list" where
  "deref p = (case p of None \<Rightarrow> Inl NullPointer | Some bs \<Rightarrow> Inr bs)"

text \<open>\<^verbatim>\<open>p[i]\<close> read and written.\<close>

definition peek :: "BYTE list \<Rightarrow> nat \<Rightarrow> fault + BYTE" where
  "peek bs i = (if i < length bs then Inr (bs ! i) else Inl OutOfBounds)"

definition poke :: "BYTE list \<Rightarrow> nat \<Rightarrow> BYTE \<Rightarrow> fault + BYTE list" where
  "poke bs i v = (if i < length bs then Inr (bs[i := v]) else Inl OutOfBounds)"

text \<open>
  \<^verbatim>\<open>memcpy(dst + d, src + s, n)\<close>, for two blocks that do not overlap: the new content
  of the destination block.
\<close>

definition memcpy :: "BYTE list \<Rightarrow> nat \<Rightarrow> BYTE list \<Rightarrow> nat \<Rightarrow> nat \<Rightarrow> fault + BYTE list" where
  "memcpy dst d src s n =
     (if d + n \<le> length dst \<and> s + n \<le> length src
      then Inr (take d dst @ take n (drop s src) @ drop (d + n) dst)
      else Inl OutOfBounds)"

text \<open>
  \<^verbatim>\<open>malloc(n)\<close>. The allocator's answer is a parameter of the model: \<open>None\<close> when the
  request is refused, \<open>Some g\<close> when a block is granted whose uninitialised byte at offset
  \<open>i\<close> happens to be \<open>g i\<close>.
\<close>

definition malloc :: "(nat \<Rightarrow> BYTE) option \<Rightarrow> size_t \<Rightarrow> BYTE list option" where
  "malloc heap n = map_option (\<lambda>g. map g [0..<unat n]) heap"

definition zero_fill :: "nat \<Rightarrow> BYTE" where
  "zero_fill i = 0"

section \<open>The ring buffer\<close>

record RINGBUFFER =
  Buffer :: "BYTE list option"
  Capacity :: size_t
  ReadIndex :: size_t
  WriteIndex :: size_t

text \<open>\<^verbatim>\<open>memset(RingBuffer, 0, sizeof(RINGBUFFER))\<close>\<close>

definition zeroed :: RINGBUFFER where
  "zeroed = \<lparr>Buffer = None, Capacity = 0, ReadIndex = 0, WriteIndex = 0\<rparr>"

text \<open>
  \<^verbatim>\<open>InitializeRingBuffer\<close> returns the structure it initialised and its return value:
  0 after a refused allocation, the requested capacity otherwise.
\<close>

definition InitializeRingBuffer :: "(nat \<Rightarrow> BYTE) option \<Rightarrow> size_t \<Rightarrow> RINGBUFFER \<times> size_t" where
  "InitializeRingBuffer heap Capacity' =
     (let RingBuffer = zeroed in
      if 0 < Capacity' then
        (let RingBuffer = RingBuffer\<lparr>Buffer := malloc heap Capacity'\<rparr> in
         if Buffer RingBuffer = None then (RingBuffer, 0)
         else (RingBuffer\<lparr>Capacity := Capacity'\<rparr>, Capacity'))
      else (RingBuffer, Capacity'))"

definition CountRingBuffer :: "RINGBUFFER \<Rightarrow> size_t" where
  "CountRingBuffer RingBuffer = WriteIndex RingBuffer - ReadIndex RingBuffer"

definition FreeSpaceRingBuffer :: "RINGBUFFER \<Rightarrow> size_t" where
  "FreeSpaceRingBuffer RingBuffer = Capacity RingBuffer - CountRingBuffer RingBuffer"

definition IsEmptyRingBuffer :: "RINGBUFFER \<Rightarrow> bool" where
  "IsEmptyRingBuffer RingBuffer \<longleftrightarrow> CountRingBuffer RingBuffer = 0"

definition IsFullRingBuffer :: "RINGBUFFER \<Rightarrow> bool" where
  "IsFullRingBuffer RingBuffer \<longleftrightarrow> CountRingBuffer RingBuffer = Capacity RingBuffer"

text \<open>
  \<^verbatim>\<open>Buffer[WriteIndex++ % Capacity] = Data\<close>: the remainder is taken of the cursor's old
  value, and the cursor is incremented in \<^verbatim>\<open>size_t\<close>.
\<close>

definition WriteByteRingBuffer :: "RINGBUFFER \<Rightarrow> BYTE \<Rightarrow> fault + RINGBUFFER \<times> size_t" where
  "WriteByteRingBuffer RingBuffer Data =
     (if IsFullRingBuffer RingBuffer then Inr (RingBuffer, 0)
      else
        and_then (umod (WriteIndex RingBuffer) (Capacity RingBuffer)) (\<lambda>Index.
        and_then (deref (Buffer RingBuffer)) (\<lambda>bs.
        and_then (poke bs (unat Index) Data) (\<lambda>bs'.
          Inr (RingBuffer\<lparr>Buffer := Some bs', WriteIndex := WriteIndex RingBuffer + 1\<rparr>, 1)))))"

text \<open>
  \<^verbatim>\<open>WriteRingBuffer(RingBuffer, Data, Size)\<close>: \<open>Data\<close> is the caller's block, of which
  the function may read the first \<open>Size\<close> bytes.
\<close>

definition WriteRingBuffer :: "RINGBUFFER \<Rightarrow> BYTE list \<Rightarrow> size_t \<Rightarrow> fault + RINGBUFFER \<times> size_t" where
  "WriteRingBuffer RingBuffer Data Size =
     (if Capacity RingBuffer = 0 then Inr (RingBuffer, 0)
      else
        and_then (umod (WriteIndex RingBuffer) (Capacity RingBuffer)) (\<lambda>Index.
        let FreeSpace = FreeSpaceRingBuffer RingBuffer;
            WriteSlack = Capacity RingBuffer - Index;
            ToWrite = min FreeSpace Size
        in
        if ToWrite = 0 then Inr (RingBuffer, 0)
        else
          and_then (deref (Buffer RingBuffer)) (\<lambda>bs.
          and_then
            (if ToWrite \<le> WriteSlack then memcpy bs (unat Index) Data 0 (unat ToWrite)
             else
               and_then (memcpy bs (unat Index) Data 0 (unat WriteSlack)) (\<lambda>bs1.
                 memcpy bs1 0 Data (unat WriteSlack) (unat (ToWrite - WriteSlack))))
            (\<lambda>bs'.
              Inr (RingBuffer\<lparr>Buffer := Some bs', WriteIndex := WriteIndex RingBuffer + ToWrite\<rparr>,
                   ToWrite)))))"

text \<open>
  \<^verbatim>\<open>ReadByteRingBuffer(RingBuffer, &Byte)\<close>: \<open>Data\<close> is the value of the caller's byte
  before the call, and the result carries its value after the call.
\<close>

definition ReadByteRingBuffer :: "RINGBUFFER \<Rightarrow> BYTE \<Rightarrow> fault + RINGBUFFER \<times> BYTE \<times> size_t" where
  "ReadByteRingBuffer RingBuffer Data =
     (if IsEmptyRingBuffer RingBuffer then Inr (RingBuffer, Data, 0)
      else
        and_then (umod (ReadIndex RingBuffer) (Capacity RingBuffer)) (\<lambda>Index.
        and_then (deref (Buffer RingBuffer)) (\<lambda>bs.
        and_then (peek bs (unat Index)) (\<lambda>b.
          Inr (RingBuffer\<lparr>ReadIndex := ReadIndex RingBuffer + 1\<rparr>, b, 1)))))"

text \<open>
  \<^verbatim>\<open>ReadRingBuffer(RingBuffer, Data, Size)\<close>: \<open>Data\<close> is the content of the caller's
  block before the call, and the result carries its content after the call.
\<close>

definition ReadRingBuffer :: "RINGBUFFER \<Rightarrow> BYTE list \<Rightarrow> size_t \<Rightarrow> fault + RINGBUFFER \<times> BYTE list \<times> size_t" where
  "ReadRingBuffer RingBuffer Data Size =
     (if Capacity RingBuffer = 0 then Inr (RingBuffer, Data, 0)
      else
        and_then (umod (ReadIndex RingBuffer) (Capacity RingBuffer)) (\<lambda>Index.
        let Count = CountRingBuffer RingBuffer;
            ReadSlack = Capacity RingBuffer - Index;
            ToRead = min Count Size
        in
        if ToRead = 0 then Inr (RingBuffer, Data, 0)
        else
          and_then (deref (Buffer RingBuffer)) (\<lambda>bs.
          and_then
            (if ToRead \<le> ReadSlack then memcpy Data 0 bs (unat Index) (unat ToRead)
             else
               and_then (memcpy Data 0 bs (unat Index) (unat ReadSlack)) (\<lambda>Data1.
                 memcpy Data1 (unat ReadSlack) bs 0 (unat (ToRead - ReadSlack))))
            (\<lambda>Data'.
              Inr (RingBuffer\<lparr>ReadIndex := ReadIndex RingBuffer + ToRead\<rparr>, Data', ToRead)))))"

section \<open>Sequences of calls\<close>

text \<open>
  A caller's request, and what the caller sees of it. \<open>Write d\<close> passes the block \<open>d\<close>
  with its length as \<open>Size\<close>; \<open>Read n\<close> passes a fresh block of \<open>n\<close> bytes and sees
  the returned count and that many first bytes of the block; \<open>ReadByte\<close> passes a
  byte variable and sees its value when the call returned 1.
\<close>

datatype call = Write "BYTE list" | WriteByte BYTE | Read size_t | ReadByte

datatype reply = Written size_t | Delivered size_t "BYTE list"

fun step :: "RINGBUFFER \<Rightarrow> call \<Rightarrow> fault + RINGBUFFER \<times> reply" where
  "step rb (Write d) =
     and_then (WriteRingBuffer rb d (of_nat (length d))) (\<lambda>(rb', n). Inr (rb', Written n))"
| "step rb (WriteByte b) =
     and_then (WriteByteRingBuffer rb b) (\<lambda>(rb', n). Inr (rb', Written n))"
| "step rb (Read n) =
     and_then (ReadRingBuffer rb (replicate (unat n) 0) n)
       (\<lambda>(rb', out, m). Inr (rb', Delivered m (take (unat m) out)))"
| "step rb ReadByte =
     and_then (ReadByteRingBuffer rb 0) (\<lambda>(rb', b, m). Inr (rb', Delivered m (take (unat m) [b])))"

fun run :: "RINGBUFFER \<Rightarrow> call list \<Rightarrow> fault + RINGBUFFER \<times> reply list" where
  "run rb [] = Inr (rb, [])"
| "run rb (c # cs) =
     and_then (step rb c) (\<lambda>(rb', r).
     and_then (run rb' cs) (\<lambda>(rb'', rs). Inr (rb'', r # rs)))"

fun is_read :: "call \<Rightarrow> bool" where
  "is_read (Read n) = True"
| "is_read ReadByte = True"
| "is_read (Write d) = False"
| "is_read (WriteByte b) = False"

text \<open>The reply of a call that transfers nothing.\<close>

fun refusal :: "call \<Rightarrow> reply" where
  "refusal (Write d) = Written 0"
| "refusal (WriteByte b) = Written 0"
| "refusal (Read n) = Delivered 0 []"
| "refusal ReadByte = Delivered 0 []"

section \<open>Well-formed buffers and split copies\<close>

text \<open>
  The structure's invariant: the block has \<open>Capacity\<close> bytes (no block for a null
  pointer, so capacity 0), and the occupancy does not exceed the capacity.
\<close>

definition valid :: "RINGBUFFER \<Rightarrow> bool" where
  "valid rb \<longleftrightarrow>
     (case Buffer rb of None \<Rightarrow> Capacity rb = 0 | Some bs \<Rightarrow> length bs = unat (Capacity rb)) \<and>
     CountRingBuffer rb \<le> Capacity rb"

text \<open>
  The storage after the bytes \<open>xs\<close> were copied in from offset \<open>i\<close>, and the bytes
  copied out from offset \<open>i\<close>: one segment when the copy ends before the block does,
  otherwise a segment up to the end of the block and a second one from offset 0.
\<close>

definition copy_in :: "BYTE list \<Rightarrow> nat \<Rightarrow> BYTE list \<Rightarrow> BYTE list" where
  "copy_in bs i xs =
     (if length xs \<le> length bs - i then take i bs @ xs @ drop (i + length xs) bs
      else take (length xs - (length bs - i)) (drop (length bs - i) xs) @
           drop (length xs - (length bs - i)) (take i bs) @ take (length bs - i) xs)"

definition copy_out :: "BYTE list \<Rightarrow> nat \<Rightarrow> nat \<Rightarrow> BYTE list" where
  "copy_out bs i n =
     (if n \<le> length bs - i then take n (drop i bs)
      else drop i bs @ take (n - (length bs - i)) bs)"

section \<open>The byte stream\<close>

text \<open>
  The bytes a buffer holds, oldest first: what one read of the whole occupancy copies out.
\<close>

definition pending :: "RINGBUFFER \<Rightarrow> BYTE list" where
  "pending rb =
     (case Buffer rb of
        None \<Rightarrow> []
      | Some bs \<Rightarrow>
          copy_out bs (unat (ReadIndex rb) mod unat (Capacity rb)) (unat (CountRingBuffer rb)))"

text \<open>The bytes a call offers, and the bytes a reply delivers.\<close>

fun offered :: "call \<Rightarrow> BYTE list" where
  "offered (Write d) = d"
| "offered (WriteByte b) = [b]"
| "offered (Read n) = []"
| "offered ReadByte = []"

fun delivered :: "reply \<Rightarrow> BYTE list" where
  "delivered (Written n) = []"
| "delivered (Delivered m bs) = bs"

definition bytes_in :: "call list \<Rightarrow> BYTE list" where
  "bytes_in cs = concat (map offered cs)"

definition bytes_out :: "reply list \<Rightarrow> BYTE list" where
  "bytes_out rs = concat (map delivered rs)"

text \<open>A call that C can express: the length of the block is a \<^verbatim>\<open>size_t\<close>.\<close>

definition sized :: "call \<Rightarrow> bool" where
  "sized c \<longleftrightarrow> length (offered c) < 2 ^ 64"

text \<open>
  No call of the sequence offers more bytes than the buffer has free space when the call
  is made.
\<close>

fun fits :: "RINGBUFFER \<Rightarrow> call list \<Rightarrow> bool" where
  "fits rb [] = True"
| "fits rb (c # cs) =
     (length (offered c) \<le> unat (FreeSpaceRingBuffer rb) \<and>
      (case step rb c of Inl e \<Rightarrow> False | Inr (rb', r) \<Rightarrow> fits rb' cs))"

text \<open>
  The cursors are \<^verbatim>\<open>size_t\<close> values that only ever grow, so after \<open>2 ^ 64\<close> bytes they
  wrap around to 0. \<open>unwrapped rb k\<close> says that this does no harm while the next \<open>k\<close>
  bytes are written: the capacity divides \<open>2 ^ 64\<close>, so that the remainder modulo the
  capacity runs on through the wrap-around, or the write cursor, which the read cursor has
  not passed, stays below \<open>2 ^ 64\<close>.
\<close>

definition unwrapped :: "RINGBUFFER \<Rightarrow> nat \<Rightarrow> bool" where
  "unwrapped rb k \<longleftrightarrow>
     unat (Capacity rb) dvd 2 ^ 64 \<or>
     (unat (ReadIndex rb) \<le> unat (WriteIndex rb) \<and> unat (WriteIndex rb) + k < 2 ^ 64)"

subsection \<open>The reference: an unbounded queue\<close>

text \<open>
  The reference of the refinement, written from the spec's words and not from the code:
  the unbounded buffer of the wraparound property. It is a queue of bytes in arrival order
  that never wraps; as the spec has it for the ring, a write accepts
  \<open>min(size, FreeSpace)\<close> bytes, where the free space is the capacity less the bytes
  queued, and a read delivers \<open>min(size, Occupancy)\<close> bytes from the front.
\<close>

fun fifo_step :: "nat \<Rightarrow> BYTE list \<Rightarrow> call \<Rightarrow> BYTE list \<times> reply" where
  "fifo_step cap q (Write d) =
     (let n = min (length d) (cap - length q) in (q @ take n d, Written (of_nat n)))"
| "fifo_step cap q (WriteByte b) =
     (if length q < cap then (q @ [b], Written 1) else (q, Written 0))"
| "fifo_step cap q (Read n) =
     (let m = min (unat n) (length q) in (drop m q, Delivered (of_nat m) (take m q)))"
| "fifo_step cap q ReadByte =
     (case q of [] \<Rightarrow> (q, Delivered 0 []) | b # q' \<Rightarrow> (q', Delivered 1 [b]))"

fun fifo_run :: "nat \<Rightarrow> BYTE list \<Rightarrow> call list \<Rightarrow> BYTE list \<times> reply list" where
  "fifo_run cap q [] = (q, [])"
| "fifo_run cap q (c # cs) =
     (let (q', r) = fifo_step cap q c; (q'', rs) = fifo_run cap q' cs in (q'', r # rs))"

text \<open>
  A buffer of capacity 15 that holds nothing, with zeroed storage and both cursors at \<open>x\<close>:
  the state a fresh buffer of that capacity is in after \<open>x\<close> rounds of writing a zero
  byte and reading it back.
\<close>

definition parked :: "size_t \<Rightarrow> RINGBUFFER" where
  "parked x = \<lparr>Buffer = Some (replicate 15 0), Capacity = 15, ReadIndex = x, WriteIndex = x\<rparr>"

section \<open>The byte-by-byte variant\<close>

text \<open>
  The file's byte-by-byte (slow) version of \<^verbatim>\<open>WriteRingBuffer\<close> and \<^verbatim>\<open>ReadRingBuffer\<close>, with the
  free space and the fullness test as that variant (and the first one) compute them.
\<close>

definition FreeSpaceRingBuffer_v1 :: "RINGBUFFER \<Rightarrow> size_t" where
  "FreeSpaceRingBuffer_v1 RingBuffer =
     Capacity RingBuffer - WriteIndex RingBuffer + ReadIndex RingBuffer"

definition IsFullRingBuffer_v1 :: "RINGBUFFER \<Rightarrow> bool" where
  "IsFullRingBuffer_v1 RingBuffer \<longleftrightarrow> FreeSpaceRingBuffer_v1 RingBuffer = 0"

text \<open>
  \<^verbatim>\<open>while (!IsFullRingBuffer(RingBuffer) && Size--)\<close>
  \<^verbatim>\<open>RingBuffer->Buffer[RingBuffer->WriteIndex++ % RingBuffer->Capacity] = *(Data++);\<close>
  The pointer \<open>Data\<close> is the caller's block and the offset \<open>k\<close> reached in it; the
  loop ends with \<open>k = Data - Start\<close>. \<open>Size\<close> is tested before it is decremented.
\<close>

function WriteRingBuffer_slow_loop ::
  "RINGBUFFER \<Rightarrow> BYTE list \<Rightarrow> nat \<Rightarrow> size_t \<Rightarrow> fault + RINGBUFFER \<times> nat" where
  "WriteRingBuffer_slow_loop RingBuffer Data k Size =
     (if \<not> IsFullRingBuffer_v1 RingBuffer \<and> Size \<noteq> 0 then
        and_then (peek Data k) (\<lambda>b.
        and_then (umod (WriteIndex RingBuffer) (Capacity RingBuffer)) (\<lambda>Index.
        and_then (deref (Buffer RingBuffer)) (\<lambda>bs.
        and_then (poke bs (unat Index) b) (\<lambda>bs'.
          WriteRingBuffer_slow_loop
            (RingBuffer\<lparr>Buffer := Some bs', WriteIndex := WriteIndex RingBuffer + 1\<rparr>)
            Data (k + 1) (Size - 1)))))
      else Inr (RingBuffer, k))"
  by pat_completeness auto
termination
  by (relation "measure (\<lambda>(RingBuffer, Data, k, Size). unat Size)")
    (auto simp: unat_minus_one unat_gt_0)

definition WriteRingBuffer_slow :: "RINGBUFFER \<Rightarrow> BYTE list \<Rightarrow> size_t \<Rightarrow> fault + RINGBUFFER \<times> size_t" where
  "WriteRingBuffer_slow RingBuffer Data Size =
     and_then (WriteRingBuffer_slow_loop RingBuffer Data 0 Size) (\<lambda>(RingBuffer', k).
       Inr (RingBuffer', of_nat k))"

text \<open>
  \<^verbatim>\<open>while (!IsEmptyRingBuffer(RingBuffer) && Size--)\<close>
  \<^verbatim>\<open>*(Data++) = RingBuffer->Buffer[RingBuffer->ReadIndex++ % RingBuffer->Capacity];\<close>
\<close>

function ReadRingBuffer_slow_loop ::
  "RINGBUFFER \<Rightarrow> BYTE list \<Rightarrow> nat \<Rightarrow> size_t \<Rightarrow> fault + RINGBUFFER \<times> BYTE list \<times> nat" where
  "ReadRingBuffer_slow_loop RingBuffer Data k Size =
     (if \<not> IsEmptyRingBuffer RingBuffer \<and> Size \<noteq> 0 then
        and_then (umod (ReadIndex RingBuffer) (Capacity RingBuffer)) (\<lambda>Index.
        and_then (deref (Buffer RingBuffer)) (\<lambda>bs.
        and_then (peek bs (unat Index)) (\<lambda>b.
        and_then (poke Data k b) (\<lambda>Data'.
          ReadRingBuffer_slow_loop
            (RingBuffer\<lparr>ReadIndex := ReadIndex RingBuffer + 1\<rparr>) Data' (k + 1) (Size - 1)))))
      else Inr (RingBuffer, Data, k))"
  by pat_completeness auto
termination
  by (relation "measure (\<lambda>(RingBuffer, Data, k, Size). unat Size)")
    (auto simp: unat_minus_one unat_gt_0)

definition ReadRingBuffer_slow ::
  "RINGBUFFER \<Rightarrow> BYTE list \<Rightarrow> size_t \<Rightarrow> fault + RINGBUFFER \<times> BYTE list \<times> size_t" where
  "ReadRingBuffer_slow RingBuffer Data Size =
     and_then (ReadRingBuffer_slow_loop RingBuffer Data 0 Size) (\<lambda>(RingBuffer', Data', k).
       Inr (RingBuffer', Data', of_nat k))"

section \<open>The first variant\<close>

text \<open>
  The file's first variant differs from the one above in three places only:
  \<^verbatim>\<open>InitializeRingBuffer\<close> calls \<^verbatim>\<open>malloc\<close> whatever the capacity,
  \<^verbatim>\<open>WriteRingBuffer\<close> and \<^verbatim>\<open>ReadRingBuffer\<close> have no test for a capacity of 0 and none
  for a transfer of 0 bytes, and the free space is computed as in the byte-by-byte variant.
  \<^verbatim>\<open>ReadByteRingBuffer\<close> and \<^verbatim>\<open>WriteByteRingBuffer\<close> have the same text in every
  variant of the file.
\<close>

definition InitializeRingBuffer_v1 :: "(nat \<Rightarrow> BYTE) option \<Rightarrow> size_t \<Rightarrow> RINGBUFFER \<times> size_t" where
  "InitializeRingBuffer_v1 heap Capacity' =
     (let RingBuffer = zeroed\<lparr>Buffer := malloc heap Capacity'\<rparr> in
      if Buffer RingBuffer = None then (RingBuffer, 0)
      else (RingBuffer\<lparr>Capacity := Capacity'\<rparr>, Capacity'))"

definition WriteRingBuffer_v1 :: "RINGBUFFER \<Rightarrow> BYTE list \<Rightarrow> size_t \<Rightarrow> fault + RINGBUFFER \<times> size_t" where
  "WriteRingBuffer_v1 RingBuffer Data Size =
     and_then (umod (WriteIndex RingBuffer) (Capacity RingBuffer)) (\<lambda>ClampedWriteindex.
     let FreeSpace = FreeSpaceRingBuffer_v1 RingBuffer;
         WriteSlack = Capacity RingBuffer - ClampedWriteindex;
         ToWrite = min FreeSpace Size
     in
     and_then (deref (Buffer RingBuffer)) (\<lambda>bs.
     and_then
       (if ToWrite \<le> WriteSlack then memcpy bs (unat ClampedWriteindex) Data 0 (unat ToWrite)
        else
          and_then (memcpy bs (unat ClampedWriteindex) Data 0 (unat WriteSlack)) (\<lambda>bs1.
            memcpy bs1 0 Data (unat WriteSlack) (unat (ToWrite - WriteSlack))))
       (\<lambda>bs'.
         Inr (RingBuffer\<lparr>Buffer := Some bs', WriteIndex := WriteIndex RingBuffer + ToWrite\<rparr>,
              ToWrite))))"

section \<open>Basic facts\<close>

lemma and_then_Inr [simp]: "and_then (Inr x) f = f x"
  by (simp add: and_then_def)

lemma and_then_Inl [simp]: "and_then (Inl e) f = Inl e"
  by (simp add: and_then_def)

section \<open>Construction\<close>

lemma Initialize_zero: "InitializeRingBuffer heap 0 = (zeroed, 0)"
  by (simp add: InitializeRingBuffer_def)

lemma Initialize_refused: "0 < c \<Longrightarrow> InitializeRingBuffer None c = (zeroed, 0)"
  by (simp add: InitializeRingBuffer_def malloc_def Let_def zeroed_def)

lemma Initialize_granted:
  "0 < c \<Longrightarrow> InitializeRingBuffer (Some g) c =
     (\<lparr>Buffer = Some (map g [0..<unat c]), Capacity = c, ReadIndex = 0, WriteIndex = 0\<rparr>, c)"
  by (simp add: InitializeRingBuffer_def malloc_def Let_def zeroed_def)

text \<open>
  Claim C7 (construction semantics). \<^verbatim>\<open>InitializeRingBuffer\<close> reports a failure by
  returning 0 for a requested capacity that is not 0, and success by returning the requested
  capacity. It fails exactly when the requested capacity is positive and the allocator
  refuses the block; the structure is then left zeroed. For a requested capacity of 0 it
  succeeds whatever the allocator would answer, and the buffer pointer stays null: no block
  is allocated. On success both cursors are 0 and the stored capacity is the requested one.
  The value returned is 0 exactly when the requested capacity is 0 or the allocation is
  refused: a caller tells the failure from the empty success by comparing with its request.
\<close>

theorem construction_semantics:
  assumes "InitializeRingBuffer heap c = (rb, ret)"
  shows "((ret \<noteq> c) = (0 < c \<and> heap = None)) \<and>
         ((ret = 0) = (c = 0 \<or> heap = None)) \<and>
         (0 < c \<and> heap = None \<longrightarrow> ret = 0 \<and> rb = zeroed) \<and>
         (c = 0 \<longrightarrow> ret = c \<and> Buffer rb = None \<and> InitializeRingBuffer None c = (rb, ret)) \<and>
         (ret = c \<longrightarrow> ReadIndex rb = 0 \<and> WriteIndex rb = 0 \<and> Capacity rb = c \<and>
            (0 < c \<longrightarrow> (\<exists>bs. Buffer rb = Some bs \<and> length bs = unat c)))"
proof (intro conjI)
  show "(ret \<noteq> c) = (0 < c \<and> heap = None)"
    using assms
    by (cases heap) (auto simp: InitializeRingBuffer_def malloc_def Let_def split: if_splits)
  show "(ret = 0) = (c = 0 \<or> heap = None)"
    using assms
    by (cases heap)
      (auto simp: InitializeRingBuffer_def malloc_def Let_def word_gt_0 split: if_splits)
  show "0 < c \<and> heap = None \<longrightarrow> ret = 0 \<and> rb = zeroed"
    using assms by (auto simp: Initialize_refused)
  show "c = 0 \<longrightarrow> ret = c \<and> Buffer rb = None \<and> InitializeRingBuffer None c = (rb, ret)"
    using assms by (auto simp: Initialize_zero zeroed_def)
  show "ret = c \<longrightarrow> ReadIndex rb = 0 \<and> WriteIndex rb = 0 \<and> Capacity rb = c \<and>
           (0 < c \<longrightarrow> (\<exists>bs. Buffer rb = Some bs \<and> length bs = unat c))"
    using assms
    by (cases heap)
      (auto simp: InitializeRingBuffer_def malloc_def Let_def zeroed_def word_gt_0
        split: if_splits)
qed

theorem construction_semantics_witness:
  "InitializeRingBuffer (Some zero_fill) 3 =
     (\<lparr>Buffer = Some [0, 0, 0], Capacity = 3, ReadIndex = 0, WriteIndex = 0\<rparr>, 3) \<and>
   InitializeRingBuffer None 3 = (zeroed, 0) \<and>
   InitializeRingBuffer None 0 = (zeroed, 0)"
proof -
  have a: "InitializeRingBuffer (Some zero_fill) 3 =
     (\<lparr>Buffer = Some [0, 0, 0], Capacity = 3, ReadIndex = 0, WriteIndex = 0\<rparr>, 3)"
    by (simp add: Initialize_granted zero_fill_def upt_rec)
  have b: "InitializeRingBuffer None 3 = (zeroed, 0)"
    by (simp add: Initialize_refused)
  show ?thesis
    using a b construction_semantics [OF a] construction_semantics [OF b]
    by (simp add: Initialize_zero)
qed

section \<open>The empty buffer and the buffer of capacity 0\<close>

lemma ReadByte_empty:
  "IsEmptyRingBuffer rb \<Longrightarrow> ReadByteRingBuffer rb Data = Inr (rb, Data, 0)"
  by (simp add: ReadByteRingBuffer_def)

lemma Read_empty:
  "CountRingBuffer rb = 0 \<Longrightarrow> ReadRingBuffer rb Data Size = Inr (rb, Data, 0)"
  by (simp add: ReadRingBuffer_def umod_def Let_def)

lemma step_read_empty:
  "CountRingBuffer rb = 0 \<Longrightarrow> is_read c \<Longrightarrow> step rb c = Inr (rb, Delivered 0 [])"
  by (cases c) (simp_all add: Read_empty ReadByte_empty IsEmptyRingBuffer_def)

lemma run_read_empty:
  "CountRingBuffer rb = 0 \<Longrightarrow> list_all is_read cs \<Longrightarrow>
   run rb cs = Inr (rb, replicate (length cs) (Delivered 0 []))"
  by (induction cs) (simp_all add: step_read_empty)

text \<open>
  Claim C10 (a failed \<^verbatim>\<open>ReadByteRingBuffer\<close> leaves the output untouched). On an empty
  buffer the call returns 0, and the caller's byte has after the call the value \<open>Data\<close>
  it had before; the buffer is unchanged as well. The function's text is the same in every
  variant of the file.
\<close>

theorem ReadByte_empty_keeps_output:
  "IsEmptyRingBuffer rb \<Longrightarrow>
   (\<exists>rb' ret. ReadByteRingBuffer rb Data = Inr (rb', Data, ret) \<and> ret = 0 \<and> rb' = rb)"
  by (simp add: ReadByte_empty)

theorem ReadByte_empty_keeps_output_witness:
  "IsEmptyRingBuffer zeroed \<and>
   (\<exists>rb' ret. ReadByteRingBuffer zeroed 42 = Inr (rb', 42, ret) \<and> ret = 0 \<and> rb' = zeroed)"
proof -
  have e: "IsEmptyRingBuffer zeroed"
    by (simp add: IsEmptyRingBuffer_def CountRingBuffer_def zeroed_def)
  show ?thesis using e ReadByte_empty_keeps_output [OF e, of 42] by simp
qed

text \<open>
  Claim C8 (idempotent emptiness). On an empty buffer \<^verbatim>\<open>ReadRingBuffer\<close>, for every
  size and every output block, and \<^verbatim>\<open>ReadByteRingBuffer\<close> return 0 and leave the
  structure (both cursors, the stored bytes) and the caller's output as they were; so does
  every sequence of such calls, however long.
\<close>

theorem idempotent_emptiness:
  assumes "CountRingBuffer rb = 0"
  shows "ReadRingBuffer rb Data Size = Inr (rb, Data, 0) \<and>
         ReadByteRingBuffer rb b = Inr (rb, b, 0) \<and>
         (list_all is_read cs \<longrightarrow>
            run rb cs = Inr (rb, replicate (length cs) (Delivered 0 [])))"
  using assms by (simp add: Read_empty ReadByte_empty IsEmptyRingBuffer_def run_read_empty)

theorem idempotent_emptiness_witness:
  "CountRingBuffer \<lparr>Buffer = Some [7, 8, 9], Capacity = 3, ReadIndex = 5, WriteIndex = 5\<rparr> = 0 \<and>
   list_all is_read [Read 2, ReadByte, Read 9] \<and>
   run \<lparr>Buffer = Some [7, 8, 9], Capacity = 3, ReadIndex = 5, WriteIndex = 5\<rparr>
       [Read 2, ReadByte, Read 9] =
     Inr (\<lparr>Buffer = Some [7, 8, 9], Capacity = 3, ReadIndex = 5, WriteIndex = 5\<rparr>,
          [Delivered 0 [], Delivered 0 [], Delivered 0 []])"
proof -
  have e: "CountRingBuffer \<lparr>Buffer = Some [7, 8, 9], Capacity = 3, ReadIndex = 5, WriteIndex = 5\<rparr> = 0"
    by (simp add: CountRingBuffer_def)
  have r: "list_all is_read [Read 2, ReadByte, Read 9]" by simp
  show ?thesis
    using e r idempotent_emptiness [OF e, of _ _ _ "[Read 2, ReadByte, Read 9]"] by simp
qed

lemma Write_zero_capacity:
  "Capacity rb = 0 \<Longrightarrow> WriteRingBuffer rb Data Size = Inr (rb, 0)"
  by (simp add: WriteRingBuffer_def)

lemma Read_zero_capacity:
  "Capacity rb = 0 \<Longrightarrow> ReadRingBuffer rb Data Size = Inr (rb, Data, 0)"
  by (simp add: ReadRingBuffer_def)

lemma WriteByte_full:
  "IsFullRingBuffer rb \<Longrightarrow> WriteByteRingBuffer rb b = Inr (rb, 0)"
  by (simp add: WriteByteRingBuffer_def)

lemma step_zero_capacity:
  "Capacity rb = 0 \<Longrightarrow> CountRingBuffer rb = 0 \<Longrightarrow> step rb c = Inr (rb, refusal c)"
  by (cases c)
    (simp_all add: Write_zero_capacity Read_zero_capacity WriteByte_full ReadByte_empty
      IsFullRingBuffer_def IsEmptyRingBuffer_def)

lemma run_zero_capacity:
  "Capacity rb = 0 \<Longrightarrow> CountRingBuffer rb = 0 \<Longrightarrow> run rb cs = Inr (rb, map refusal cs)"
  by (induction cs) (simp_all add: step_zero_capacity)

text \<open>
  Claim C6 (zero-capacity degeneracy and totality). A buffer constructed with capacity 0 is
  empty and full at once. On it \<^verbatim>\<open>WriteRingBuffer\<close> and \<^verbatim>\<open>ReadRingBuffer\<close>, for every
  size and block, \<^verbatim>\<open>WriteByteRingBuffer\<close> and \<^verbatim>\<open>ReadByteRingBuffer\<close> return 0 and
  leave the buffer (and the caller's output) unchanged, and so does every sequence of
  calls. Each result is a value \<open>Inr\<close>: no call ends in \<open>DivideByZero\<close> or in any other
  fault. This is the variant of the file that tests the capacity first; the first variant,
  for which a capacity of 0 is a failed initialisation, is compared with it further down.
\<close>

theorem zero_capacity_degenerate:
  assumes "InitializeRingBuffer heap 0 = (rb, ret)"
  shows "IsEmptyRingBuffer rb \<and> IsFullRingBuffer rb \<and>
         WriteRingBuffer rb Data Size = Inr (rb, 0) \<and>
         ReadRingBuffer rb Data Size = Inr (rb, Data, 0) \<and>
         WriteByteRingBuffer rb b = Inr (rb, 0) \<and>
         ReadByteRingBuffer rb b = Inr (rb, b, 0) \<and>
         run rb cs = Inr (rb, map refusal cs)"
proof -
  from assms have rb: "rb = zeroed" by (simp add: Initialize_zero)
  then have c: "Capacity rb = 0" and n: "CountRingBuffer rb = 0"
    by (simp_all add: zeroed_def CountRingBuffer_def)
  from c n have "IsEmptyRingBuffer rb" and "IsFullRingBuffer rb"
    by (simp_all add: IsEmptyRingBuffer_def IsFullRingBuffer_def)
  moreover from c have "WriteRingBuffer rb Data Size = Inr (rb, 0)"
    by (rule Write_zero_capacity)
  moreover from c have "ReadRingBuffer rb Data Size = Inr (rb, Data, 0)"
    by (rule Read_zero_capacity)
  moreover from c n have "WriteByteRingBuffer rb b = Inr (rb, 0)"
    by (simp add: WriteByte_full IsFullRingBuffer_def)
  moreover from n have "ReadByteRingBuffer rb b = Inr (rb, b, 0)"
    by (simp add: ReadByte_empty IsEmptyRingBuffer_def)
  moreover from c n have "run rb cs = Inr (rb, map refusal cs)"
    by (rule run_zero_capacity)
  ultimately show ?thesis by simp
qed

theorem zero_capacity_degenerate_witness:
  "InitializeRingBuffer (Some zero_fill) 0 = (zeroed, 0) \<and>
   run zeroed [Write [1, 2, 3], WriteByte 10, ReadByte, Read 256] =
     Inr (zeroed, [Written 0, Written 0, Delivered 0 [], Delivered 0 []])"
proof -
  have i: "InitializeRingBuffer (Some zero_fill) 0 = (zeroed, 0)" by (rule Initialize_zero)
  show ?thesis
    using i zero_capacity_degenerate [OF i, of _ _ _ "[Write [1, 2, 3], WriteByte 10, ReadByte, Read 256]"]
    by simp
qed

section \<open>The operations on a well-formed buffer\<close>

lemma memcpy_in_one:
  "n \<le> length bs - i \<Longrightarrow> i < length bs \<Longrightarrow> n \<le> length Data \<Longrightarrow>
   memcpy bs i Data 0 n = Inr (copy_in bs i (take n Data))"
  by (simp add: memcpy_def copy_in_def min_absorb2)

lemma memcpy_in_two:
  assumes "length bs - i < n" "i < length bs" "n \<le> length bs" "n \<le> length Data"
  shows "and_then (memcpy bs i Data 0 (length bs - i))
           (\<lambda>bs1. memcpy bs1 0 Data (length bs - i) (n - (length bs - i))) =
         Inr (copy_in bs i (take n Data))"
proof -
  let ?s = "length bs - i"
  have 1: "memcpy bs i Data 0 ?s = Inr (take i bs @ take ?s Data)"
    using assms by (simp add: memcpy_def)
  have 2: "memcpy (take i bs @ take ?s Data) 0 Data ?s (n - ?s) =
      Inr (take (n - ?s) (drop ?s Data) @ drop (n - ?s) (take i bs) @ take ?s Data)"
    using assms by (simp add: memcpy_def min_absorb2)
  have 3: "copy_in bs i (take n Data) =
      take (n - ?s) (drop ?s Data) @ drop (n - ?s) (take i bs) @ take ?s Data"
    using assms by (simp add: copy_in_def min_absorb2 min_absorb1 take_drop)
  show ?thesis by (simp add: 1 2 3)
qed

lemma memcpy_out_one:
  "n \<le> length bs - i \<Longrightarrow> i < length bs \<Longrightarrow> n \<le> length Data \<Longrightarrow>
   memcpy Data 0 bs i n = Inr (copy_out bs i n @ drop n Data)"
  by (simp add: memcpy_def copy_out_def)

lemma memcpy_out_two:
  assumes "length bs - i < n" "i < length bs" "n \<le> length bs" "n \<le> length Data"
  shows "and_then (memcpy Data 0 bs i (length bs - i))
           (\<lambda>Data1. memcpy Data1 (length bs - i) bs 0 (n - (length bs - i))) =
         Inr (copy_out bs i n @ drop n Data)"
proof -
  let ?s = "length bs - i"
  have 1: "memcpy Data 0 bs i ?s = Inr (drop i bs @ drop ?s Data)"
    using assms by (simp add: memcpy_def)
  have 2: "memcpy (drop i bs @ drop ?s Data) ?s bs 0 (n - ?s) =
      Inr (drop i bs @ take (n - ?s) bs @ drop n Data)"
    using assms by (simp add: memcpy_def)
  have 3: "copy_out bs i n = drop i bs @ take (n - ?s) bs"
    using assms by (simp add: copy_out_def)
  show ?thesis by (simp only: 1 and_then_Inr 2 3 append_assoc)
qed

lemma unat_min: "unat (min a b) = min (unat a) (unat (b::size_t))"
  by (simp add: min_def word_le_nat_alt)

lemma unat_slack: "c \<noteq> 0 \<Longrightarrow> unat (c - w mod c) = unat c - unat w mod unat (c::size_t)"
  by (simp add: unat_sub unat_mod word_mod_less_divisor word_neq_0_conv less_imp_le)

lemma unat_FreeSpace: "CountRingBuffer rb \<le> Capacity rb \<Longrightarrow>
  unat (FreeSpaceRingBuffer rb) = unat (Capacity rb) - unat (CountRingBuffer rb)"
  by (simp add: FreeSpaceRingBuffer_def unat_sub)

lemma Write_char:
  assumes v: "valid rb" and c: "Capacity rb \<noteq> 0" and b: "Buffer rb = Some bs"
    and d: "unat Size \<le> length Data"
  shows "WriteRingBuffer rb Data Size =
    Inr (rb\<lparr>Buffer := Some (copy_in bs (unat (WriteIndex rb) mod unat (Capacity rb))
                  (take (unat (min (FreeSpaceRingBuffer rb) Size)) Data)),
            WriteIndex := WriteIndex rb + min (FreeSpaceRingBuffer rb) Size\<rparr>,
         min (FreeSpaceRingBuffer rb) Size)"
proof -
  let ?cap = "unat (Capacity rb)"
  let ?i = "unat (WriteIndex rb) mod ?cap"
  let ?n = "min (FreeSpaceRingBuffer rb) Size"
  let ?slack = "Capacity rb - WriteIndex rb mod Capacity rb"
  from v b have len: "length bs = ?cap" and cnt: "CountRingBuffer rb \<le> Capacity rb"
    by (auto simp: valid_def)
  from c have cap0: "0 < ?cap" by (simp add: unat_gt_0)
  then have i: "?i < length bs" by (simp add: len)
  have "unat ?n \<le> ?cap - unat (CountRingBuffer rb)"
    using cnt by (simp add: unat_min unat_FreeSpace)
  then have n_cap: "unat ?n \<le> length bs" by (simp add: len)
  have n_data: "unat ?n \<le> length Data" using d by (simp add: unat_min)
  have slack: "unat ?slack = length bs - ?i"
    using c by (simp add: unat_slack len)
  have idx: "unat (WriteIndex rb mod Capacity rb) = ?i" by (simp add: unat_mod)
  show ?thesis
  proof (cases "?n = 0")
    case True
    have "rb\<lparr>Buffer := Some bs\<rparr> = rb" using b by simp
    with True c i show ?thesis
      by (simp add: WriteRingBuffer_def umod_def Let_def copy_in_def)
  next
    case False
    have copy: "(if ?n \<le> ?slack then memcpy bs (unat (WriteIndex rb mod Capacity rb)) Data 0 (unat ?n)
           else and_then (memcpy bs (unat (WriteIndex rb mod Capacity rb)) Data 0 (unat ?slack))
              (\<lambda>bs1. memcpy bs1 0 Data (unat ?slack) (unat (?n - ?slack)))) =
          Inr (copy_in bs ?i (take (unat ?n) Data))"
    proof (cases "?n \<le> ?slack")
      case True
      then have "unat ?n \<le> length bs - ?i" by (simp add: word_le_nat_alt slack)
      then show ?thesis using True i n_data by (simp only: idx if_True memcpy_in_one)
    next
      case gt: False
      then have lt: "length bs - ?i < unat ?n" by (simp add: word_le_nat_alt slack not_le)
      have sub: "unat (?n - ?slack) = unat ?n - (length bs - ?i)"
        using gt by (simp add: unat_sub slack not_le less_imp_le)
      show ?thesis using gt lt i n_cap n_data
        by (simp only: idx if_False slack sub memcpy_in_two)
    qed
    from False c b show ?thesis
      by (simp add: WriteRingBuffer_def umod_def Let_def deref_def copy del: min_less_iff_conj)
  qed
qed



lemma Read_char:
  assumes v: "valid rb" and c: "Capacity rb \<noteq> 0" and b: "Buffer rb = Some bs"
    and d: "unat Size \<le> length Data"
  shows "ReadRingBuffer rb Data Size =
    Inr (rb\<lparr>ReadIndex := ReadIndex rb + min (CountRingBuffer rb) Size\<rparr>,
         copy_out bs (unat (ReadIndex rb) mod unat (Capacity rb))
           (unat (min (CountRingBuffer rb) Size)) @
         drop (unat (min (CountRingBuffer rb) Size)) Data,
         min (CountRingBuffer rb) Size)"
proof -
  let ?cap = "unat (Capacity rb)"
  let ?i = "unat (ReadIndex rb) mod ?cap"
  let ?n = "min (CountRingBuffer rb) Size"
  let ?slack = "Capacity rb - ReadIndex rb mod Capacity rb"
  from v b have len: "length bs = ?cap" and cnt: "CountRingBuffer rb \<le> Capacity rb"
    by (auto simp: valid_def)
  from c have cap0: "0 < ?cap" by (simp add: unat_gt_0)
  then have i: "?i < length bs" by (simp add: len)
  have "unat ?n \<le> unat (CountRingBuffer rb)"
    by (simp add: unat_min)
  then have n_cap: "unat ?n \<le> length bs" using cnt by (simp add: len word_le_nat_alt)
  have n_data: "unat ?n \<le> length Data" using d by (simp add: unat_min)
  have slack: "unat ?slack = length bs - ?i"
    using c by (simp add: unat_slack len)
  have idx: "unat (ReadIndex rb mod Capacity rb) = ?i" by (simp add: unat_mod)
  show ?thesis
  proof (cases "?n = 0")
    case True
    with c show ?thesis
      by (simp add: ReadRingBuffer_def umod_def Let_def copy_out_def)
  next
    case False
    have copy: "(if ?n \<le> ?slack then memcpy Data 0 bs (unat (ReadIndex rb mod Capacity rb)) (unat ?n)
           else and_then (memcpy Data 0 bs (unat (ReadIndex rb mod Capacity rb)) (unat ?slack))
              (\<lambda>Data1. memcpy Data1 (unat ?slack) bs 0 (unat (?n - ?slack)))) =
          Inr (copy_out bs ?i (unat ?n) @ drop (unat ?n) Data)"
    proof (cases "?n \<le> ?slack")
      case True
      then have "unat ?n \<le> length bs - ?i" by (simp add: word_le_nat_alt slack)
      then show ?thesis using True i n_data by (simp only: idx if_True memcpy_out_one)
    next
      case gt: False
      then have lt: "length bs - ?i < unat ?n" by (simp add: word_le_nat_alt slack not_le)
      have sub: "unat (?n - ?slack) = unat ?n - (length bs - ?i)"
        using gt by (simp add: unat_sub slack not_le less_imp_le)
      show ?thesis using gt lt i n_cap n_data
        by (simp only: idx if_False slack sub memcpy_out_two)
    qed
    from False c b show ?thesis
      by (simp add: ReadRingBuffer_def umod_def Let_def deref_def copy del: min_less_iff_conj)
  qed
qed

lemma not_full_capacity: "valid rb \<Longrightarrow> \<not> IsFullRingBuffer rb \<Longrightarrow> Capacity rb \<noteq> 0"
  by (auto simp: valid_def IsFullRingBuffer_def)

lemma not_empty_capacity: "valid rb \<Longrightarrow> \<not> IsEmptyRingBuffer rb \<Longrightarrow> Capacity rb \<noteq> 0"
  by (auto simp: valid_def IsEmptyRingBuffer_def)

lemma WriteByte_char:
  assumes v: "valid rb" and f: "\<not> IsFullRingBuffer rb" and b: "Buffer rb = Some bs"
  shows "WriteByteRingBuffer rb Data =
    Inr (rb\<lparr>Buffer := Some (bs[unat (WriteIndex rb) mod unat (Capacity rb) := Data]),
            WriteIndex := WriteIndex rb + 1\<rparr>, 1)"
proof -
  from v f have c: "Capacity rb \<noteq> 0" by (rule not_full_capacity)
  from v b have len: "length bs = unat (Capacity rb)" by (auto simp: valid_def)
  from c have "0 < unat (Capacity rb)" by (simp add: unat_gt_0)
  then have "unat (WriteIndex rb) mod unat (Capacity rb) < length bs" by (simp add: len)
  with f c b show ?thesis
    by (simp add: WriteByteRingBuffer_def umod_def deref_def poke_def unat_mod)
qed

lemma ReadByte_char:
  assumes v: "valid rb" and e: "\<not> IsEmptyRingBuffer rb" and b: "Buffer rb = Some bs"
  shows "ReadByteRingBuffer rb Data =
    Inr (rb\<lparr>ReadIndex := ReadIndex rb + 1\<rparr>,
         bs ! (unat (ReadIndex rb) mod unat (Capacity rb)), 1)"
proof -
  from v e have c: "Capacity rb \<noteq> 0" by (rule not_empty_capacity)
  from v b have len: "length bs = unat (Capacity rb)" by (auto simp: valid_def)
  from c have "0 < unat (Capacity rb)" by (simp add: unat_gt_0)
  then have "unat (ReadIndex rb) mod unat (Capacity rb) < length bs" by (simp add: len)
  with e c b show ?thesis
    by (simp add: ReadByteRingBuffer_def umod_def deref_def peek_def unat_mod)
qed

section \<open>Lengths and bytes of split copies\<close>

lemma length_copy_in:
  "i < length bs \<Longrightarrow> length xs \<le> length bs \<Longrightarrow> length (copy_in bs i xs) = length bs"
  by (auto simp: copy_in_def)

lemma length_copy_out:
  "i < length bs \<Longrightarrow> n \<le> length bs \<Longrightarrow> length (copy_out bs i n) = n"
  by (auto simp: copy_out_def)

lemma nth_copy_out:
  "i < length bs \<Longrightarrow> n \<le> length bs \<Longrightarrow> j < n \<Longrightarrow>
   copy_out bs i n ! j = bs ! ((i + j) mod length bs)"
  by (auto simp: copy_out_def nth_append mod_if not_le add.commute)

lemma nth_copy_in:
  "i < length bs \<Longrightarrow> length xs \<le> length bs \<Longrightarrow> p < length bs \<Longrightarrow>
   copy_in bs i xs ! p =
     (if (p + length bs - i) mod length bs < length xs
      then xs ! ((p + length bs - i) mod length bs) else bs ! p)"
  by (auto simp: copy_in_def nth_append mod_if not_le not_less min_def add.commute)

section \<open>The occupancy invariant\<close>

lemma Count_advance_write:
  "CountRingBuffer (rb\<lparr>Buffer := b, WriteIndex := WriteIndex rb + n\<rparr>) = CountRingBuffer rb + n"
  by (simp add: CountRingBuffer_def)

lemma Count_advance_read:
  "CountRingBuffer (rb\<lparr>ReadIndex := ReadIndex rb + n\<rparr>) = CountRingBuffer rb - n"
  by (simp add: CountRingBuffer_def)

lemma word_add_within:
  fixes a n c :: size_t
  assumes "a \<le> c" "n \<le> c - a"
  shows "a + n \<le> c" and "unat (a + n) = unat a + unat n"
proof -
  from assms have le: "unat a + unat n \<le> unat c"
    by (simp add: word_le_nat_alt unat_sub)
  have "unat c < 2 ^ 64" using unsigned_less [of c, where 'a = nat] by simp
  with le have "unat a + unat n < 2 ^ LENGTH(64)" by simp
  then show eq: "unat (a + n) = unat a + unat n" by (rule unat_add_lem [THEN iffD1])
  with le show "a + n \<le> c" by (simp add: word_le_nat_alt)
qed

lemma valid_Write:
  assumes v: "valid rb" and d: "unat Size \<le> length Data"
  shows "\<exists>rb'. WriteRingBuffer rb Data Size = Inr (rb', min (FreeSpaceRingBuffer rb) Size) \<and>
           valid rb' \<and> Capacity rb' = Capacity rb \<and> ReadIndex rb' = ReadIndex rb \<and>
           WriteIndex rb' = WriteIndex rb + min (FreeSpaceRingBuffer rb) Size"
proof (cases "Capacity rb = 0")
  case True
  with v have "CountRingBuffer rb = 0" by (simp add: valid_def)
  with True have "min (FreeSpaceRingBuffer rb) Size = 0" by (simp add: FreeSpaceRingBuffer_def)
  with True v show ?thesis by (simp add: Write_zero_capacity)
next
  case False
  let ?n = "min (FreeSpaceRingBuffer rb) Size"
  let ?cap = "unat (Capacity rb)"
  from v False obtain bs where b: "Buffer rb = Some bs" and len: "length bs = ?cap"
    by (auto simp: valid_def split: option.splits)
  from v have cnt: "CountRingBuffer rb \<le> Capacity rb" by (simp add: valid_def)
  have n: "?n \<le> Capacity rb - CountRingBuffer rb" by (simp add: FreeSpaceRingBuffer_def)
  from False have "0 < ?cap" by (simp add: unat_gt_0)
  then have i: "unat (WriteIndex rb) mod ?cap < length bs" by (simp add: len)
  have "unat ?n \<le> ?cap" using n cnt by (simp add: word_le_nat_alt unat_sub)
  then have l: "length (take (unat ?n) Data) \<le> length bs" by (simp add: len)
  have "valid (rb\<lparr>Buffer := Some (copy_in bs (unat (WriteIndex rb) mod ?cap) (take (unat ?n) Data)),
            WriteIndex := WriteIndex rb + ?n\<rparr>)"
    using word_add_within(1) [OF cnt n] i l
    by (simp add: valid_def Count_advance_write length_copy_in len del: min_less_iff_conj)
  then show ?thesis by (simp add: Write_char [OF v False b d])
qed

lemma valid_Read:
  assumes v: "valid rb" and d: "unat Size \<le> length Data"
  shows "\<exists>Data'. ReadRingBuffer rb Data Size =
             Inr (rb\<lparr>ReadIndex := ReadIndex rb + min (CountRingBuffer rb) Size\<rparr>, Data',
                  min (CountRingBuffer rb) Size) \<and>
           length Data' = length Data \<and>
           valid (rb\<lparr>ReadIndex := ReadIndex rb + min (CountRingBuffer rb) Size\<rparr>)"
proof -
  let ?n = "min (CountRingBuffer rb) Size"
  from v have cnt: "CountRingBuffer rb \<le> Capacity rb" by (simp add: valid_def)
  have "CountRingBuffer rb - ?n \<le> CountRingBuffer rb" by (simp add: word_sub_le)
  with cnt have "CountRingBuffer rb - ?n \<le> Capacity rb" by simp
  with v have v': "valid (rb\<lparr>ReadIndex := ReadIndex rb + ?n\<rparr>)"
    by (simp add: valid_def Count_advance_read split: option.splits)
  show ?thesis
  proof (cases "Capacity rb = 0")
    case True
    with cnt have "?n = 0" by simp
    with True v show ?thesis by (simp add: Read_zero_capacity)
  next
    case False
    let ?cap = "unat (Capacity rb)"
    from v False obtain bs where b: "Buffer rb = Some bs" and len: "length bs = ?cap"
      by (auto simp: valid_def split: option.splits)
    from False have "0 < ?cap" by (simp add: unat_gt_0)
    then have i: "unat (ReadIndex rb) mod ?cap < length bs" by (simp add: len)
    have "unat ?n \<le> unat (CountRingBuffer rb)" by (simp add: unat_min)
    with cnt have n: "unat ?n \<le> length bs" by (simp add: word_le_nat_alt len)
    have nd: "unat ?n \<le> length Data" using d by (simp add: unat_min)
    show ?thesis using v' i n nd
      by (simp add: Read_char [OF v False b d] length_copy_out del: min_less_iff_conj)
  qed
qed


lemma valid_WriteByte:
  assumes v: "valid rb"
  shows "\<exists>rb'. WriteByteRingBuffer rb b = Inr (rb', if IsFullRingBuffer rb then 0 else 1) \<and>
           valid rb' \<and> Capacity rb' = Capacity rb"
proof (cases "IsFullRingBuffer rb")
  case True
  with v show ?thesis by (simp add: WriteByte_full)
next
  case False
  from v False have c: "Capacity rb \<noteq> 0" by (rule not_full_capacity)
  let ?cap = "unat (Capacity rb)"
  from v c obtain bs where b: "Buffer rb = Some bs" and len: "length bs = ?cap"
    by (auto simp: valid_def split: option.splits)
  from v have "CountRingBuffer rb \<le> Capacity rb" by (simp add: valid_def)
  moreover from False have "CountRingBuffer rb \<noteq> Capacity rb"
    by (simp add: IsFullRingBuffer_def)
  ultimately have "CountRingBuffer rb < Capacity rb" by (rule le_neq_trans)
  then have "CountRingBuffer rb + 1 \<le> Capacity rb" by (rule inc_le)
  then have "valid (rb\<lparr>Buffer := Some (bs[unat (WriteIndex rb) mod ?cap := b]),
            WriteIndex := WriteIndex rb + 1\<rparr>)"
    by (simp add: valid_def Count_advance_write len)
  with False show ?thesis by (simp add: WriteByte_char [OF v False b])
qed

lemma valid_ReadByte:
  assumes v: "valid rb"
  shows "\<exists>rb' b'. ReadByteRingBuffer rb b = Inr (rb', b', if IsEmptyRingBuffer rb then 0 else 1) \<and>
           valid rb' \<and> Capacity rb' = Capacity rb"
proof (cases "IsEmptyRingBuffer rb")
  case True
  with v show ?thesis by (simp add: ReadByte_empty)
next
  case False
  from v False have c: "Capacity rb \<noteq> 0" by (rule not_empty_capacity)
  from v c obtain bs where b: "Buffer rb = Some bs"
    by (auto simp: valid_def split: option.splits)
  from False have "1 \<le> CountRingBuffer rb"
    by (simp add: IsEmptyRingBuffer_def word_le_nat_alt unat_gt_0 Suc_le_eq)
  then have "CountRingBuffer rb - 1 \<le> CountRingBuffer rb" by (rule word_sub_le)
  moreover from v have "CountRingBuffer rb \<le> Capacity rb" by (simp add: valid_def)
  ultimately have "CountRingBuffer rb - 1 \<le> Capacity rb" by (rule order_trans)
  with v have "valid (rb\<lparr>ReadIndex := ReadIndex rb + 1\<rparr>)"
    by (simp add: valid_def Count_advance_read split: option.splits)
  with False show ?thesis by (simp add: ReadByte_char [OF v False b])
qed

lemma unat_of_nat_le: "unat (of_nat n :: size_t) \<le> n"
  by (simp add: unat_of_nat)

lemma valid_step:
  assumes v: "valid rb"
  shows "\<exists>rb' r. step rb c = Inr (rb', r) \<and> valid rb' \<and> Capacity rb' = Capacity rb"
proof (cases c)
  case (Write d)
  from valid_Write [OF v unat_of_nat_le [of "length d"]] Write show ?thesis by auto
next
  case (WriteByte b)
  from valid_WriteByte [OF v, of b] WriteByte show ?thesis by auto
next
  case (Read n)
  have "unat n \<le> length (replicate (unat n) (0::BYTE))" by simp
  from valid_Read [OF v this] Read show ?thesis by auto
next
  case ReadByte
  from valid_ReadByte [OF v, of 0] ReadByte show ?thesis by auto
qed

lemma valid_run:
  "valid rb \<Longrightarrow> \<exists>rb' rs. run rb cs = Inr (rb', rs) \<and> valid rb' \<and> Capacity rb' = Capacity rb"
proof (induction cs arbitrary: rb)
  case Nil
  then show ?case by simp
next
  case (Cons c cs)
  from valid_step [OF Cons.prems, of c] obtain rb1 r where
    s: "step rb c = Inr (rb1, r)" and v1: "valid rb1" and c1: "Capacity rb1 = Capacity rb"
    by blast
  from Cons.IH [OF v1] obtain rb' rs where
    "run rb1 cs = Inr (rb', rs)" "valid rb'" "Capacity rb' = Capacity rb1"
    by blast
  with s c1 show ?case by simp
qed

lemma valid_zeroed: "valid zeroed"
  by (simp add: valid_def zeroed_def CountRingBuffer_def)

lemma valid_Initialize: "valid (fst (InitializeRingBuffer heap c))"
proof (cases "0 < c")
  case False
  then show ?thesis by (simp add: word_gt_0 Initialize_zero valid_zeroed)
next
  case True
  then show ?thesis
    by (cases heap)
      (simp_all add: Initialize_refused Initialize_granted valid_zeroed,
        simp add: valid_def CountRingBuffer_def)
qed

lemma valid_occupancy:
  "valid rb \<Longrightarrow> unat (CountRingBuffer rb) + unat (FreeSpaceRingBuffer rb) = unat (Capacity rb)"
  by (simp add: valid_def unat_FreeSpace word_le_nat_alt)

text \<open>
  Claim C2 (occupancy invariant). In every state reached from a freshly initialised buffer
  (whatever the requested capacity and the allocator's answer) by any sequence of
  \<^verbatim>\<open>WriteRingBuffer\<close>, \<^verbatim>\<open>ReadRingBuffer\<close>, \<^verbatim>\<open>WriteByteRingBuffer\<close> and
  \<^verbatim>\<open>ReadByteRingBuffer\<close> calls, none of which faults, the occupancy
  \<open>WriteIndex - ReadIndex\<close> (computed in \<^verbatim>\<open>size_t\<close>) lies between 0 and the capacity, and
  occupancy and free space add up to the capacity, as numbers and in \<^verbatim>\<open>size_t\<close>.
\<close>

theorem occupancy_invariant:
  assumes "InitializeRingBuffer heap c = (rb0, ret)"
  shows "\<exists>rb rs. run rb0 cs = Inr (rb, rs) \<and>
           CountRingBuffer rb = WriteIndex rb - ReadIndex rb \<and>
           0 \<le> CountRingBuffer rb \<and> CountRingBuffer rb \<le> Capacity rb \<and>
           unat (CountRingBuffer rb) + unat (FreeSpaceRingBuffer rb) = unat (Capacity rb) \<and>
           CountRingBuffer rb + FreeSpaceRingBuffer rb = Capacity rb"
proof -
  from assms have "valid rb0" using valid_Initialize [of heap c] by simp
  from valid_run [OF this, of cs] obtain rb rs where
    r: "run rb0 cs = Inr (rb, rs)" and v: "valid rb"
    by blast
  from v have "CountRingBuffer rb \<le> Capacity rb" by (simp add: valid_def)
  with r valid_occupancy [OF v] show ?thesis
    by (simp add: CountRingBuffer_def FreeSpaceRingBuffer_def)
qed

theorem occupancy_invariant_witness:
  "InitializeRingBuffer (Some zero_fill) 3 =
     (\<lparr>Buffer = Some [0, 0, 0], Capacity = 3, ReadIndex = 0, WriteIndex = 0\<rparr>, 3) \<and>
   (\<exists>rb rs. run \<lparr>Buffer = Some [0, 0, 0], Capacity = 3, ReadIndex = 0, WriteIndex = 0\<rparr>
               [Write [1, 2], ReadByte, Write [3, 4, 5], Read 7] = Inr (rb, rs) \<and>
        CountRingBuffer rb \<le> Capacity rb \<and>
        unat (CountRingBuffer rb) + unat (FreeSpaceRingBuffer rb) = unat (Capacity rb))"
proof -
  have a: "InitializeRingBuffer (Some zero_fill) 3 =
     (\<lparr>Buffer = Some [0, 0, 0], Capacity = 3, ReadIndex = 0, WriteIndex = 0\<rparr>, 3)"
    by (simp add: Initialize_granted zero_fill_def upt_rec)
  show ?thesis
    using a occupancy_invariant [OF a, of "[Write [1, 2], ReadByte, Write [3, 4, 5], Read 7]"]
    by blast
qed

section \<open>Postconditions of a write and of a read\<close>

lemma ring_back:
  fixes i j c :: nat
  assumes "i < c" "j < c"
  shows "((i + j) mod c + c - i) mod c = j"
  using assms by (auto simp: mod_if not_less)

lemma ring_forth:
  fixes i p c :: nat
  assumes "i < c" "p < c"
  shows "(i + (p + c - i) mod c) mod c = p"
  using assms by (auto simp: mod_if not_less)

lemma nth_copy_in_written:
  assumes "i < length bs" "length xs \<le> length bs" "j < length xs"
  shows "copy_in bs i xs ! ((i + j) mod length bs) = xs ! j"
proof -
  from assms have j: "j < length bs" by simp
  from assms(1) have "0 < length bs" by (cases bs) simp_all
  then have p: "(i + j) mod length bs < length bs" by simp
  show ?thesis
    using assms by (simp add: nth_copy_in [OF assms(1,2) p] ring_back [OF assms(1) j])
qed

lemma nth_copy_in_kept:
  assumes "i < length bs" "length xs \<le> length bs" "p < length bs"
    and "\<forall>j<length xs. p \<noteq> (i + j) mod length bs"
  shows "copy_in bs i xs ! p = bs ! p"
proof -
  let ?j = "(p + length bs - i) mod length bs"
  have "\<not> ?j < length xs"
  proof
    assume "?j < length xs"
    with assms(4) have "p \<noteq> (i + ?j) mod length bs" by blast
    with ring_forth [OF assms(1,3)] show False by simp
  qed
  then show ?thesis by (simp add: nth_copy_in [OF assms(1-3)])
qed


text \<open>
  Claim C3 (write postcondition). On a well-formed buffer of capacity greater than 0, with
  a block \<open>Data\<close> of at least \<open>Size\<close> bytes, \<^verbatim>\<open>WriteRingBuffer\<close> returns
  \<open>n = min(FreeSpace, Size)\<close>, advances \<open>WriteIndex\<close> by \<open>n\<close> (in \<^verbatim>\<open>size_t\<close>) and
  leaves \<open>ReadIndex\<close> and \<open>Capacity\<close> as they were. With \<open>i = WriteIndex mod Capacity\<close>,
  the new storage is the old one with the first \<open>n\<close> bytes of \<open>Data\<close> copied in from
  offset \<open>i\<close>: in one segment when \<open>n\<close> bytes fit before the end of the block, and
  otherwise in a segment from \<open>i\<close> to the end of the block followed by a segment from
  offset 0. Byte \<open>j\<close> of \<open>Data\<close> lands at offset \<open>(i + j) mod Capacity\<close>, and every
  other offset keeps its byte.
\<close>

theorem Write_postcondition:
  assumes v: "valid rb" and c: "Capacity rb \<noteq> 0" and b: "Buffer rb = Some bs"
    and d: "unat Size \<le> length Data"
    and n: "n = min (FreeSpaceRingBuffer rb) Size"
    and i: "i = unat (WriteIndex rb) mod unat (Capacity rb)"
    and bs': "bs' = (if unat n \<le> length bs - i
                    then take i bs @ take (unat n) Data @ drop (i + unat n) bs
                    else take (unat n - (length bs - i)) (drop (length bs - i) Data) @
                         drop (unat n - (length bs - i)) (take i bs) @
                         take (length bs - i) Data)"
  shows "WriteRingBuffer rb Data Size =
           Inr (rb\<lparr>Buffer := Some bs', WriteIndex := WriteIndex rb + n\<rparr>, n) \<and>
         length bs' = length bs \<and>
         (\<forall>j<unat n. bs' ! ((i + j) mod length bs) = Data ! j) \<and>
         (\<forall>p<length bs. (\<forall>j<unat n. p \<noteq> (i + j) mod length bs) \<longrightarrow> bs' ! p = bs ! p)"
proof -
  from v b have len: "length bs = unat (Capacity rb)" and cnt: "CountRingBuffer rb \<le> Capacity rb"
    by (auto simp: valid_def)
  from c have "0 < unat (Capacity rb)" by (simp add: unat_gt_0)
  then have il: "i < length bs" by (simp add: i len)
  have "unat n \<le> unat (Capacity rb) - unat (CountRingBuffer rb)"
    using cnt by (simp add: n unat_min unat_FreeSpace)
  then have nl: "unat n \<le> length bs" by (simp add: len)
  have nd: "unat n \<le> length Data" using d by (simp add: n unat_min)
  let ?xs = "take (unat n) Data"
  have lx: "length ?xs = unat n" using nd by simp
  have lxs: "length ?xs \<le> length bs" using nl lx by simp
  have eq: "bs' = copy_in bs i ?xs"
    using nd by (simp add: bs' copy_in_def min_absorb2 take_drop)
  have w: "WriteRingBuffer rb Data Size =
           Inr (rb\<lparr>Buffer := Some bs', WriteIndex := WriteIndex rb + n\<rparr>, n)"
    by (simp only: Write_char [OF v c b d] eq n i)
  have l: "length bs' = length bs"
    by (simp only: eq length_copy_in [OF il lxs])
  have wr: "\<forall>j<unat n. bs' ! ((i + j) mod length bs) = Data ! j"
  proof (intro allI impI)
    fix j assume j: "j < unat n"
    then have "j < length ?xs" by (simp only: lx)
    from nth_copy_in_written [OF il lxs this] j show "bs' ! ((i + j) mod length bs) = Data ! j"
      by (simp add: eq)
  qed
  have kp: "\<forall>p<length bs. (\<forall>j<unat n. p \<noteq> (i + j) mod length bs) \<longrightarrow> bs' ! p = bs ! p"
  proof (intro allI impI)
    fix p assume p: "p < length bs" and o: "\<forall>j<unat n. p \<noteq> (i + j) mod length bs"
    from o have "\<forall>j<length ?xs. p \<noteq> (i + j) mod length bs" by (simp only: lx)
    from nth_copy_in_kept [OF il lxs p this] show "bs' ! p = bs ! p" by (simp only: eq)
  qed
  from w l wr kp show ?thesis by blast
qed

text \<open>
  Claim C5 (saturation). On a well-formed buffer, a \<^verbatim>\<open>WriteRingBuffer\<close> of more bytes
  than the free space returns exactly the free space and leaves the buffer full, and a
  \<^verbatim>\<open>ReadRingBuffer\<close> of more bytes than the occupancy returns exactly the occupancy and
  leaves the buffer empty.
\<close>

theorem write_read_saturation:
  assumes v: "valid rb" and d: "unat Size \<le> length Data" and o: "unat Size \<le> length Out"
  shows "(FreeSpaceRingBuffer rb < Size \<longrightarrow>
            (\<exists>rb'. WriteRingBuffer rb Data Size = Inr (rb', FreeSpaceRingBuffer rb) \<and>
                   IsFullRingBuffer rb')) \<and>
         (CountRingBuffer rb < Size \<longrightarrow>
            (\<exists>rb' Out'. ReadRingBuffer rb Out Size = Inr (rb', Out', CountRingBuffer rb) \<and>
                   IsEmptyRingBuffer rb'))"
proof (intro conjI impI)
  assume "FreeSpaceRingBuffer rb < Size"
  then have m: "min (FreeSpaceRingBuffer rb) Size = FreeSpaceRingBuffer rb" by simp
  from valid_Write [OF v d] obtain rb' where
    w: "WriteRingBuffer rb Data Size = Inr (rb', FreeSpaceRingBuffer rb)"
    and c: "Capacity rb' = Capacity rb" and r: "ReadIndex rb' = ReadIndex rb"
    and wi: "WriteIndex rb' = WriteIndex rb + FreeSpaceRingBuffer rb"
    by (auto simp only: m)
  have "IsFullRingBuffer rb'"
    by (simp add: IsFullRingBuffer_def CountRingBuffer_def c r wi FreeSpaceRingBuffer_def)
  with w show "\<exists>rb'. WriteRingBuffer rb Data Size = Inr (rb', FreeSpaceRingBuffer rb) \<and>
                   IsFullRingBuffer rb'"
    by blast
next
  assume "CountRingBuffer rb < Size"
  then have m: "min (CountRingBuffer rb) Size = CountRingBuffer rb" by simp
  from valid_Read [OF v o] obtain Out' where
    rd: "ReadRingBuffer rb Out Size =
      Inr (rb\<lparr>ReadIndex := ReadIndex rb + CountRingBuffer rb\<rparr>, Out', CountRingBuffer rb)"
    by (auto simp only: m)
  have "IsEmptyRingBuffer (rb\<lparr>ReadIndex := ReadIndex rb + CountRingBuffer rb\<rparr>)"
    by (simp add: IsEmptyRingBuffer_def CountRingBuffer_def)
  with rd show "\<exists>rb' Out'. ReadRingBuffer rb Out Size = Inr (rb', Out', CountRingBuffer rb) \<and>
                   IsEmptyRingBuffer rb'"
    by blast
qed


theorem Write_postcondition_witness:
  "valid \<lparr>Buffer = Some [0, 0, 0, 0, 0], Capacity = 5, ReadIndex = 3, WriteIndex = 4\<rparr> \<and>
   WriteRingBuffer \<lparr>Buffer = Some [0, 0, 0, 0, 0], Capacity = 5, ReadIndex = 3, WriteIndex = 4\<rparr>
       [1, 2, 3] 3 =
     Inr (\<lparr>Buffer = Some [2, 3, 0, 0, 1], Capacity = 5, ReadIndex = 3, WriteIndex = 7\<rparr>, 3)"
proof -
  let ?rb = "\<lparr>Buffer = Some [0, 0, 0, 0, 0], Capacity = 5, ReadIndex = 3, WriteIndex = 4\<rparr>"
  have v: "valid ?rb" by (simp add: valid_def CountRingBuffer_def)
  have c: "Capacity ?rb \<noteq> 0" by simp
  have b: "Buffer ?rb = Some [0, 0, 0, 0, 0]" by simp
  have d: "unat (3::size_t) \<le> length [1, 2, 3 :: BYTE]" by simp
  have n: "(3::size_t) = min (FreeSpaceRingBuffer ?rb) 3"
    by (simp add: FreeSpaceRingBuffer_def CountRingBuffer_def)
  have i: "(4::nat) = unat (WriteIndex ?rb) mod unat (Capacity ?rb)" by simp
  have bs': "[2, 3, 0, 0, 1 :: BYTE] =
     (if unat (3::size_t) \<le> length [0, 0, 0, 0, 0 :: BYTE] - 4
      then take 4 [0, 0, 0, 0, 0] @ take (unat (3::size_t)) [1, 2, 3] @
           drop (4 + unat (3::size_t)) [0, 0, 0, 0, 0]
      else take (unat (3::size_t) - (length [0, 0, 0, 0, 0 :: BYTE] - 4))
             (drop (length [0, 0, 0, 0, 0 :: BYTE] - 4) [1, 2, 3]) @
           drop (unat (3::size_t) - (length [0, 0, 0, 0, 0 :: BYTE] - 4)) (take 4 [0, 0, 0, 0, 0]) @
           take (length [0, 0, 0, 0, 0 :: BYTE] - 4) [1, 2, 3])"
    by simp
  from Write_postcondition [OF v c b d n i bs'] have
    "WriteRingBuffer ?rb [1, 2, 3] 3 =
       Inr (?rb\<lparr>Buffer := Some [2, 3, 0, 0, 1], WriteIndex := WriteIndex ?rb + 3\<rparr>, 3)"
    by (rule conjunct1)
  with v show ?thesis by simp
qed

theorem write_read_saturation_witness:
  "valid \<lparr>Buffer = Some [0, 0, 0, 0, 0], Capacity = 5, ReadIndex = 3, WriteIndex = 4\<rparr> \<and>
   (\<exists>rb'. WriteRingBuffer \<lparr>Buffer = Some [0, 0, 0, 0, 0], Capacity = 5, ReadIndex = 3, WriteIndex = 4\<rparr>
           [1, 2, 3, 4, 5] 5 = Inr (rb', 4) \<and> IsFullRingBuffer rb') \<and>
   (\<exists>rb' Out'. ReadRingBuffer \<lparr>Buffer = Some [0, 0, 0, 0, 0], Capacity = 5, ReadIndex = 3, WriteIndex = 4\<rparr>
           [9, 9, 9, 9, 9] 5 = Inr (rb', Out', 1) \<and> IsEmptyRingBuffer rb')"
proof -
  let ?rb = "\<lparr>Buffer = Some [0, 0, 0, 0, 0], Capacity = 5, ReadIndex = 3, WriteIndex = 4\<rparr>"
  have v: "valid ?rb" by (simp add: valid_def CountRingBuffer_def)
  show ?thesis
    using v write_read_saturation [OF v, of 5 "[1, 2, 3, 4, 5]" "[9, 9, 9, 9, 9]"]
    by (simp add: FreeSpaceRingBuffer_def CountRingBuffer_def)
qed

section \<open>The storage as a ring\<close>

lemma ring_apart:
  fixes r c :: nat
  assumes "j < count" "j' < n" "count + n \<le> c"
  shows "(r + j) mod c \<noteq> (r + count + j') mod c"
proof
  assume "(r + j) mod c = (r + count + j') mod c"
  then have "(r + count + j') mod c = (r + j) mod c" by simp
  moreover have "r + j \<le> r + count + j'" using assms by simp
  ultimately have "c dvd (r + count + j') - (r + j)"
    by (simp add: mod_eq_dvd_iff_nat)
  moreover have "0 < (r + count + j') - (r + j)" using assms by simp
  ultimately have "c \<le> (r + count + j') - (r + j)" by (rule dvd_imp_le)
  with assms show False by simp
qed

lemma ring_shift:
  fixes r c :: nat
  assumes "m \<le> j"
  shows "((r + m) mod c + (j - m)) mod c = (r + j) mod c"
proof -
  have "((r + m) mod c + (j - m)) mod c = (r + m + (j - m)) mod c"
    by (rule mod_add_left_eq)
  also have "r + m + (j - m) = r + j" using assms by simp
  finally show ?thesis .
qed

lemma copy_out_copy_in:
  assumes ri: "ri < length bs" and wi: "wi = (ri + count) mod length bs"
    and fit: "count + length xs \<le> length bs"
  shows "copy_out (copy_in bs wi xs) ri (count + length xs) = copy_out bs ri count @ xs"
proof (rule nth_equalityI)
  let ?c = "length bs"
  let ?bs' = "copy_in bs wi xs"
  from ri have c0: "0 < ?c" by (cases bs) simp_all
  then have wl: "wi < ?c" by (simp add: wi)
  from fit have xl: "length xs \<le> ?c" by simp
  have l': "length ?bs' = ?c" by (rule length_copy_in [OF wl xl])
  from fit have cl: "count \<le> ?c" by simp
  show "length (copy_out ?bs' ri (count + length xs)) = length (copy_out bs ri count @ xs)"
    using ri fit cl by (simp add: length_copy_out l')
  fix j assume "j < length (copy_out ?bs' ri (count + length xs))"
  then have j: "j < count + length xs" using ri fit by (simp add: length_copy_out l')
  have lhs: "copy_out ?bs' ri (count + length xs) ! j = ?bs' ! ((ri + j) mod ?c)"
    using nth_copy_out [of ri ?bs' "count + length xs" j] ri fit j by (simp add: l')
  show "copy_out ?bs' ri (count + length xs) ! j = (copy_out bs ri count @ xs) ! j"
  proof (cases "j < count")
    case True
    have "\<forall>j'<length xs. (ri + j) mod ?c \<noteq> (wi + j') mod ?c"
    proof (intro allI impI)
      fix j' assume "j' < length xs"
      from ring_apart [OF True this fit, of ri]
      show "(ri + j) mod ?c \<noteq> (wi + j') mod ?c"
        by (simp add: wi mod_add_left_eq)
    qed
    from nth_copy_in_kept [OF wl xl _ this] c0
    have "?bs' ! ((ri + j) mod ?c) = bs ! ((ri + j) mod ?c)" by simp
    with True ri cl show ?thesis
      by (simp add: lhs nth_append length_copy_out nth_copy_out)
  next
    case False
    then have "j - count < length xs" using j by simp
    from nth_copy_in_written [OF wl xl this]
    have "?bs' ! ((wi + (j - count)) mod ?c) = xs ! (j - count)" .
    moreover have "(wi + (j - count)) mod ?c = (ri + j) mod ?c"
      using False by (simp only: wi ring_shift not_less)
    ultimately show ?thesis using False ri cl
      by (simp add: lhs nth_append length_copy_out)
  qed
qed

lemma copy_out_split:
  assumes ri: "ri < length bs" and m: "m \<le> count" and cl: "count \<le> length bs"
  shows "copy_out bs ri count =
         copy_out bs ri m @ copy_out bs ((ri + m) mod length bs) (count - m)"
proof (rule nth_equalityI)
  let ?c = "length bs"
  from ri have c0: "0 < ?c" by (cases bs) simp_all
  then have ri': "(ri + m) mod ?c < ?c" by simp
  from m cl have ml: "m \<le> ?c" and dl: "count - m \<le> ?c" by simp_all
  show "length (copy_out bs ri count) =
        length (copy_out bs ri m @ copy_out bs ((ri + m) mod ?c) (count - m))"
    using m by (simp add: length_copy_out [OF ri cl] length_copy_out [OF ri ml]
        length_copy_out [OF ri' dl])
  fix j assume "j < length (copy_out bs ri count)"
  then have j: "j < count" by (simp add: length_copy_out [OF ri cl])
  show "copy_out bs ri count ! j =
        (copy_out bs ri m @ copy_out bs ((ri + m) mod ?c) (count - m)) ! j"
  proof (cases "j < m")
    case True
    then show ?thesis
      by (simp add: nth_append length_copy_out [OF ri ml] nth_copy_out [OF ri cl j]
          nth_copy_out [OF ri ml True])
  next
    case False
    then have d: "j - m < count - m" using j by simp
    have "((ri + m) mod ?c + (j - m)) mod ?c = (ri + j) mod ?c"
      using False by (simp only: ring_shift not_less)
    with False show ?thesis
      by (simp add: nth_append length_copy_out [OF ri ml] nth_copy_out [OF ri cl j]
          nth_copy_out [OF ri' dl d])
  qed
qed

lemma copy_in_single: "i < length bs \<Longrightarrow> copy_in bs i [b] = bs[i := b]"
  by (auto simp: copy_in_def upd_conv_take_nth_drop not_le)

lemma copy_out_single: "i < length bs \<Longrightarrow> copy_out bs i (Suc 0) = [bs ! i]"
  by (auto simp: copy_out_def take_Suc_conv_app_nth not_le)

section \<open>The ring against the queue\<close>

lemma unat_add_mod_dvd:
  fixes x y :: size_t
  assumes "c dvd 2 ^ 64"
  shows "unat (x + y) mod c = (unat x + unat y) mod c"
proof -
  have "unat (x + y) = (unat x + unat y) mod 2 ^ 64"
    by (simp add: unat_word_ariths)
  with assms show ?thesis by (simp add: mod_mod_cancel)
qed

lemma unat_add_below:
  fixes x y :: size_t
  assumes "unat x + unat y < 2 ^ 64"
  shows "unat (x + y) = unat x + unat y"
proof -
  from assms have "unat x + unat y < 2 ^ LENGTH(64)" by simp
  then show ?thesis by (rule unat_add_lem [THEN iffD1])
qed

lemma unat_add_mod_coherent:
  fixes x y :: size_t
  assumes "c dvd 2 ^ 64 \<or> unat x + unat y < 2 ^ 64"
  shows "unat (x + y) mod c = (unat x + unat y) mod c"
  using assms by (auto simp: unat_add_mod_dvd unat_add_below)

lemma unwrapped_linear:
  assumes "unwrapped rb k" and "\<not> unat (Capacity rb) dvd 2 ^ 64"
  shows "unat (ReadIndex rb) + unat (CountRingBuffer rb) = unat (WriteIndex rb)"
    and "unat (WriteIndex rb) + k < 2 ^ 64"
proof -
  from assms have le: "unat (ReadIndex rb) \<le> unat (WriteIndex rb)"
    and lt: "unat (WriteIndex rb) + k < 2 ^ 64"
    by (auto simp: unwrapped_def)
  from le have "ReadIndex rb \<le> WriteIndex rb" by (simp add: word_le_nat_alt)
  then have "unat (CountRingBuffer rb) = unat (WriteIndex rb) - unat (ReadIndex rb)"
    by (simp add: CountRingBuffer_def unat_sub)
  with le show "unat (ReadIndex rb) + unat (CountRingBuffer rb) = unat (WriteIndex rb)" by simp
  from lt show "unat (WriteIndex rb) + k < 2 ^ 64" .
qed

lemma unwrapped_aligned:
  assumes "unwrapped rb k"
  shows "unat (WriteIndex rb) mod unat (Capacity rb) =
         (unat (ReadIndex rb) + unat (CountRingBuffer rb)) mod unat (Capacity rb)"
proof (cases "unat (Capacity rb) dvd 2 ^ 64")
  case True
  have "WriteIndex rb = ReadIndex rb + CountRingBuffer rb" by (simp add: CountRingBuffer_def)
  then have "unat (WriteIndex rb) mod unat (Capacity rb) =
      unat (ReadIndex rb + CountRingBuffer rb) mod unat (Capacity rb)" by simp
  also have "\<dots> = (unat (ReadIndex rb) + unat (CountRingBuffer rb)) mod unat (Capacity rb)"
    using True by (rule unat_add_mod_dvd)
  finally show ?thesis .
next
  case False
  from unwrapped_linear(1) [OF assms False] show ?thesis by simp
qed

lemma unwrapped_read:
  assumes u: "unwrapped rb k" and m: "m \<le> CountRingBuffer rb"
  shows "unat (ReadIndex rb + m) mod unat (Capacity rb) =
         (unat (ReadIndex rb) + unat m) mod unat (Capacity rb)"
    and "unwrapped (rb\<lparr>ReadIndex := ReadIndex rb + m\<rparr>) k"
proof -
  let ?c = "unat (Capacity rb)"
  have both: "unat (ReadIndex rb + m) mod ?c = (unat (ReadIndex rb) + unat m) mod ?c \<and>
      unwrapped (rb\<lparr>ReadIndex := ReadIndex rb + m\<rparr>) k"
  proof (cases "?c dvd 2 ^ 64")
    case True
    then show ?thesis by (simp add: unat_add_mod_dvd unwrapped_def)
  next
    case False
    note lin = unwrapped_linear [OF u False]
    from m have "unat m \<le> unat (CountRingBuffer rb)" by (simp add: word_le_nat_alt)
    with lin have le: "unat (ReadIndex rb) + unat m \<le> unat (WriteIndex rb)" by simp
    with lin(2) have "unat (ReadIndex rb) + unat m < 2 ^ 64" by simp
    then have eq: "unat (ReadIndex rb + m) = unat (ReadIndex rb) + unat m"
      by (rule unat_add_below)
    with le lin(2) show ?thesis by (simp add: unwrapped_def)
  qed
  from both show "unat (ReadIndex rb + m) mod ?c = (unat (ReadIndex rb) + unat m) mod ?c" ..
  from both show "unwrapped (rb\<lparr>ReadIndex := ReadIndex rb + m\<rparr>) k" ..
qed

lemma unwrapped_write:
  assumes u: "unwrapped rb k" and n: "unat n \<le> k"
  shows "unwrapped (rb\<lparr>Buffer := b, WriteIndex := WriteIndex rb + n\<rparr>) (k - unat n)"
proof (cases "unat (Capacity rb) dvd 2 ^ 64")
  case True
  then show ?thesis by (simp add: unwrapped_def)
next
  case False
  from u False have le: "unat (ReadIndex rb) \<le> unat (WriteIndex rb)"
    and lt: "unat (WriteIndex rb) + k < 2 ^ 64"
    by (auto simp: unwrapped_def)
  from lt n have "unat (WriteIndex rb) + unat n < 2 ^ 64" by simp
  then have "unat (WriteIndex rb + n) = unat (WriteIndex rb) + unat n"
    by (rule unat_add_below)
  with le lt n show ?thesis by (simp add: unwrapped_def)
qed

lemma unwrapped_less: "unwrapped rb k \<Longrightarrow> k' \<le> k \<Longrightarrow> unwrapped rb k'"
  by (auto simp: unwrapped_def)

lemma pending_Some:
  "Buffer rb = Some bs \<Longrightarrow>
   pending rb = copy_out bs (unat (ReadIndex rb) mod unat (Capacity rb)) (unat (CountRingBuffer rb))"
  by (simp add: pending_def)

lemma length_pending: "valid rb \<Longrightarrow> length (pending rb) = unat (CountRingBuffer rb)"
proof (cases "Buffer rb")
  case None
  assume "valid rb"
  with None show ?thesis by (auto simp: valid_def pending_def)
next
  case (Some bs)
  assume v: "valid rb"
  with Some have len: "length bs = unat (Capacity rb)" and
    cnt: "unat (CountRingBuffer rb) \<le> unat (Capacity rb)"
    by (simp_all add: valid_def word_le_nat_alt)
  show ?thesis
  proof (cases "Capacity rb = 0")
    case True
    with cnt len show ?thesis by (simp add: pending_Some [OF Some] copy_out_def)
  next
    case False
    then have "0 < unat (Capacity rb)" by (simp add: unat_gt_0)
    then have "unat (ReadIndex rb) mod unat (Capacity rb) < length bs" by (simp add: len)
    from length_copy_out [OF this] cnt show ?thesis by (simp add: pending_Some [OF Some] len)
  qed
qed


lemma Write_refines:
  assumes v: "valid rb" and c: "Capacity rb \<noteq> 0" and u: "unwrapped rb k"
    and d: "unat Size \<le> length Data" and k: "unat Size \<le> k"
  shows "\<exists>rb'. WriteRingBuffer rb Data Size = Inr (rb', min (FreeSpaceRingBuffer rb) Size) \<and>
           pending rb' = pending rb @ take (unat (min (FreeSpaceRingBuffer rb) Size)) Data \<and>
           valid rb' \<and> Capacity rb' = Capacity rb \<and>
           unwrapped rb' (k - unat (min (FreeSpaceRingBuffer rb) Size))"
proof -
  let ?cap = "unat (Capacity rb)"
  let ?n = "min (FreeSpaceRingBuffer rb) Size"
  let ?ri = "unat (ReadIndex rb) mod ?cap"
  let ?wi = "unat (WriteIndex rb) mod ?cap"
  let ?count = "unat (CountRingBuffer rb)"
  let ?xs = "take (unat ?n) Data"
  from v c obtain bs where b: "Buffer rb = Some bs" and len: "length bs = ?cap"
    by (auto simp: valid_def split: option.splits)
  let ?rb' = "rb\<lparr>Buffer := Some (copy_in bs ?wi ?xs), WriteIndex := WriteIndex rb + ?n\<rparr>"
  from v have cnt: "CountRingBuffer rb \<le> Capacity rb" by (simp add: valid_def)
  have nfree: "?n \<le> Capacity rb - CountRingBuffer rb" by (simp add: FreeSpaceRingBuffer_def)
  have w: "WriteRingBuffer rb Data Size = Inr (?rb', ?n)" by (rule Write_char [OF v c b d])
  from valid_Write [OF v d] w have v': "valid ?rb'" by auto
  from c have "0 < ?cap" by (simp add: unat_gt_0)
  then have ri: "?ri < length bs" by (simp add: len)
  have nd: "unat ?n \<le> length Data" using d by (simp add: unat_min)
  then have lx: "length ?xs = unat ?n" by simp
  have fit: "?count + length ?xs \<le> length bs"
    using cnt nfree by (simp only: lx len) (simp add: word_le_nat_alt unat_sub)
  have wi: "?wi = (?ri + ?count) mod length bs"
    by (simp only: len unwrapped_aligned [OF u] mod_add_left_eq)
  have cnt': "unat (CountRingBuffer ?rb') = ?count + length ?xs"
    by (simp only: Count_advance_write word_add_within(2) [OF cnt nfree] lx)
  have "pending ?rb' = copy_out (copy_in bs ?wi ?xs) ?ri (?count + length ?xs)"
    by (simp add: pending_def cnt' del: min_less_iff_conj)
  also have "\<dots> = copy_out bs ?ri ?count @ ?xs"
    by (rule copy_out_copy_in [OF ri wi fit])
  also have "copy_out bs ?ri ?count = pending rb" by (simp only: pending_Some [OF b])
  finally have p: "pending ?rb' = pending rb @ ?xs" .
  have "unat ?n \<le> k" using k by (simp add: unat_min)
  from unwrapped_write [OF u this] have u': "unwrapped ?rb' (k - unat ?n)" .
  from w p v' u' show ?thesis by (intro exI [of _ ?rb']) simp
qed

lemma Read_refines:
  assumes v: "valid rb" and c: "Capacity rb \<noteq> 0" and u: "unwrapped rb k"
    and d: "unat Size \<le> length Out"
  shows "\<exists>rb' Out'. ReadRingBuffer rb Out Size = Inr (rb', Out', min (CountRingBuffer rb) Size) \<and>
           take (unat (min (CountRingBuffer rb) Size)) Out' =
             take (unat (min (CountRingBuffer rb) Size)) (pending rb) \<and>
           pending rb' = drop (unat (min (CountRingBuffer rb) Size)) (pending rb) \<and>
           valid rb' \<and> Capacity rb' = Capacity rb \<and> unwrapped rb' k"
proof -
  let ?cap = "unat (Capacity rb)"
  let ?m = "min (CountRingBuffer rb) Size"
  let ?ri = "unat (ReadIndex rb) mod ?cap"
  let ?count = "unat (CountRingBuffer rb)"
  from v c obtain bs where b: "Buffer rb = Some bs" and len: "length bs = ?cap"
    by (auto simp: valid_def split: option.splits)
  let ?rb' = "rb\<lparr>ReadIndex := ReadIndex rb + ?m\<rparr>"
  let ?Out' = "copy_out bs ?ri (unat ?m) @ drop (unat ?m) Out"
  from v have cnt: "?count \<le> length bs" by (simp add: valid_def word_le_nat_alt len)
  have mc: "?m \<le> CountRingBuffer rb" by simp
  then have mc': "unat ?m \<le> ?count" by (simp only: word_le_nat_alt)
  have r: "ReadRingBuffer rb Out Size = Inr (?rb', ?Out', ?m)" by (rule Read_char [OF v c b d])
  from valid_Read [OF v d] have v': "valid ?rb'" by auto
  from c have "0 < ?cap" by (simp add: unat_gt_0)
  then have ri: "?ri < length bs" by (simp add: len)
  from mc' cnt have ml: "unat ?m \<le> length bs" by simp
  have split: "pending rb = copy_out bs ?ri (unat ?m) @
      copy_out bs ((?ri + unat ?m) mod length bs) (?count - unat ?m)"
    by (simp only: pending_Some [OF b] copy_out_split [OF ri mc' cnt])
  have l1: "length (copy_out bs ?ri (unat ?m)) = unat ?m" by (rule length_copy_out [OF ri ml])
  have t: "take (unat ?m) ?Out' = take (unat ?m) (pending rb)"
    by (simp only: split) (simp add: l1 del: min_less_iff_conj)
  have cnt': "unat (CountRingBuffer ?rb') = ?count - unat ?m"
    using mc by (simp only: Count_advance_read unat_sub)
  have ri': "unat (ReadIndex rb + ?m) mod ?cap = (?ri + unat ?m) mod length bs"
    by (simp add: unwrapped_read(1) [OF u mc] len mod_add_left_eq del: min_less_iff_conj)
  have "pending ?rb' = copy_out bs ((?ri + unat ?m) mod length bs) (?count - unat ?m)"
    using b by (simp add: pending_def cnt' ri' del: min_less_iff_conj)
  also have "\<dots> = drop (unat ?m) (pending rb)"
    by (simp only: split) (simp add: l1 del: min_less_iff_conj)
  finally have p: "pending ?rb' = drop (unat ?m) (pending rb)" .
  from unwrapped_read(2) [OF u mc] have u': "unwrapped ?rb' k" .
  from r t p v' u' show ?thesis by (intro exI [of _ ?rb'] exI [of _ ?Out']) simp
qed

lemma copy_in_Nil: "copy_in bs i [] = bs"
  by (simp add: copy_in_def)

lemma WriteByte_as_Write:
  assumes v: "valid rb"
  shows "WriteByteRingBuffer rb b = WriteRingBuffer rb [b] 1"
proof (cases "Capacity rb = 0")
  case True
  with v have "IsFullRingBuffer rb" by (simp add: valid_def IsFullRingBuffer_def)
  with True show ?thesis by (simp add: WriteByte_full Write_zero_capacity)
next
  case False
  from v False obtain bs where bf: "Buffer rb = Some bs" and len: "length bs = unat (Capacity rb)"
    by (auto simp: valid_def split: option.splits)
  from False have "0 < unat (Capacity rb)" by (simp add: unat_gt_0)
  then have wi: "unat (WriteIndex rb) mod unat (Capacity rb) < length bs" by (simp add: len)
  have d: "unat (1::size_t) \<le> length [b]" by simp
  note w = Write_char [OF v False bf d]
  show ?thesis
  proof (cases "IsFullRingBuffer rb")
    case True
    then have "FreeSpaceRingBuffer rb = 0"
      by (simp add: IsFullRingBuffer_def FreeSpaceRingBuffer_def)
    then have m: "min (FreeSpaceRingBuffer rb) 1 = 0" by simp
    have "rb\<lparr>Buffer := Some bs\<rparr> = rb" using bf by simp
    with True show ?thesis by (simp add: WriteByte_full w m copy_in_Nil)
  next
    case nf: False
    then have "FreeSpaceRingBuffer rb \<noteq> 0"
      by (simp add: IsFullRingBuffer_def FreeSpaceRingBuffer_def)
    then have "1 \<le> FreeSpaceRingBuffer rb"
      by (simp add: word_le_nat_alt unat_gt_0 Suc_le_eq)
    then have m: "min (FreeSpaceRingBuffer rb) 1 = 1" by (simp add: min_absorb2)
    show ?thesis
      by (simp add: WriteByte_char [OF v nf bf] w m copy_in_single [OF wi])
  qed
qed

lemma ReadByte_as_Read:
  assumes v: "valid rb"
  shows "ReadRingBuffer rb [b] 1 =
         and_then (ReadByteRingBuffer rb b) (\<lambda>(rb', b', m). Inr (rb', [b'], m))"
proof (cases "IsEmptyRingBuffer rb")
  case True
  then show ?thesis by (simp add: ReadByte_empty Read_empty IsEmptyRingBuffer_def)
next
  case False
  from v False have c: "Capacity rb \<noteq> 0" by (rule not_empty_capacity)
  from v c obtain bs where bf: "Buffer rb = Some bs" and len: "length bs = unat (Capacity rb)"
    by (auto simp: valid_def split: option.splits)
  from c have "0 < unat (Capacity rb)" by (simp add: unat_gt_0)
  then have ri: "unat (ReadIndex rb) mod unat (Capacity rb) < length bs" by (simp add: len)
  have d: "unat (1::size_t) \<le> length [b]" by simp
  from False have "1 \<le> CountRingBuffer rb"
    by (simp add: IsEmptyRingBuffer_def word_le_nat_alt unat_gt_0 Suc_le_eq)
  then have m: "min (CountRingBuffer rb) 1 = 1" by (simp add: min_absorb2)
  show ?thesis
    by (simp add: ReadByte_char [OF v False bf] Read_char [OF v c bf d] m copy_out_single [OF ri])
qed

lemma step_bytewise:
  assumes v: "valid rb"
  shows "step rb (WriteByte b) = step rb (Write [b])" and "step rb ReadByte = step rb (Read 1)"
proof -
  show "step rb (WriteByte b) = step rb (Write [b])"
    by (simp add: WriteByte_as_Write [OF v])
  show "step rb ReadByte = step rb (Read 1)"
    by (cases "ReadByteRingBuffer rb 0") (auto simp: ReadByte_as_Read [OF v])
qed

lemma fifo_step_bytewise:
  "fifo_step cap q (WriteByte b) = fifo_step cap q (Write [b])"
  "fifo_step cap q ReadByte = fifo_step cap q (Read 1)"
  by (auto simp: Let_def min_def split: list.splits)

lemma word_of_unat: "unat (w::size_t) = n \<Longrightarrow> w = of_nat n"
  by auto

lemma step_refines:
  assumes v: "valid rb" and c: "Capacity rb \<noteq> 0" and u: "unwrapped rb k"
    and s: "sized call" and k: "length (offered call) \<le> k"
  shows "\<exists>rb'. step rb call = Inr (rb', snd (fifo_step (unat (Capacity rb)) (pending rb) call)) \<and>
           pending rb' = fst (fifo_step (unat (Capacity rb)) (pending rb) call) \<and>
           valid rb' \<and> Capacity rb' = Capacity rb \<and>
           unwrapped rb' (k - length (offered call))"
proof -
  let ?cap = "unat (Capacity rb)"
  let ?q = "pending rb"
  have lq: "length ?q = unat (CountRingBuffer rb)" by (rule length_pending [OF v])
  from v have cnt: "CountRingBuffer rb \<le> Capacity rb" by (simp add: valid_def)
  have wr: "\<exists>rb'. step rb (Write d) = Inr (rb', snd (fifo_step ?cap ?q (Write d))) \<and>
           pending rb' = fst (fifo_step ?cap ?q (Write d)) \<and>
           valid rb' \<and> Capacity rb' = Capacity rb \<and> unwrapped rb' (k' - length d)"
    if sz: "length d < 2 ^ 64" and k': "length d \<le> k'" and u': "unwrapped rb k'" for d k'
  proof -
    let ?Size = "of_nat (length d) :: size_t"
    let ?n = "min (FreeSpaceRingBuffer rb) ?Size"
    from sz have us: "unat ?Size = length d" by (simp add: unat_of_nat)
    then have d: "unat ?Size \<le> length d" and ks: "unat ?Size \<le> k'" using k' by simp_all
    from Write_refines [OF v c u' d ks] obtain rb' where
      w: "WriteRingBuffer rb d ?Size = Inr (rb', ?n)" and
      p: "pending rb' = ?q @ take (unat ?n) d" and
      v': "valid rb'" and c': "Capacity rb' = Capacity rb" and
      un: "unwrapped rb' (k' - unat ?n)"
      by blast
    have n: "unat ?n = min (length d) (?cap - length ?q)"
      using cnt by (simp add: unat_min unat_FreeSpace us lq min.commute)
    have r: "snd (fifo_step ?cap ?q (Write d)) = Written ?n"
      by (simp add: Let_def n [symmetric] del: min_less_iff_conj)
    have f: "fst (fifo_step ?cap ?q (Write d)) = ?q @ take (unat ?n) d"
      by (simp add: Let_def n [symmetric] del: min_less_iff_conj)
    have "k' - length d \<le> k' - unat ?n" using n by simp
    with un have "unwrapped rb' (k' - length d)" by (rule unwrapped_less)
    with w p v' c' show ?thesis
      by (intro exI [of _ rb']) (simp add: r f del: fifo_step.simps)
  qed
  have rd: "\<exists>rb'. step rb (Read n) = Inr (rb', snd (fifo_step ?cap ?q (Read n))) \<and>
           pending rb' = fst (fifo_step ?cap ?q (Read n)) \<and>
           valid rb' \<and> Capacity rb' = Capacity rb \<and> unwrapped rb' k" for n
  proof -
    let ?m = "min (CountRingBuffer rb) n"
    have d: "unat n \<le> length (replicate (unat n) (0::BYTE))" by simp
    from Read_refines [OF v c u d] obtain rb' Out' where
      r: "ReadRingBuffer rb (replicate (unat n) 0) n = Inr (rb', Out', ?m)" and
      t: "take (unat ?m) Out' = take (unat ?m) ?q" and
      p: "pending rb' = drop (unat ?m) ?q" and
      v': "valid rb'" and c': "Capacity rb' = Capacity rb" and un: "unwrapped rb' k"
      by blast
    have m: "unat ?m = min (unat n) (length ?q)" by (simp add: unat_min lq min.commute)
    have rp: "snd (fifo_step ?cap ?q (Read n)) = Delivered ?m (take (unat ?m) ?q)"
      by (simp add: Let_def m [symmetric] del: min_less_iff_conj)
    have f: "fst (fifo_step ?cap ?q (Read n)) = drop (unat ?m) ?q"
      by (simp add: Let_def m [symmetric] del: min_less_iff_conj)
    from r t p v' c' un show ?thesis
      by (intro exI [of _ rb']) (simp add: rp f del: fifo_step.simps)
  qed
  show ?thesis
  proof (cases call)
    case (Write d)
    with s k have "length d < 2 ^ 64" "length d \<le> k" by (simp_all add: sized_def)
    from wr [OF this u] Write show ?thesis by simp
  next
    case (WriteByte b)
    have "length [b] < (2::nat) ^ 64" by simp
    moreover from k WriteByte have "length [b] \<le> k" by simp
    ultimately show ?thesis
      using wr [of "[b]" k] u WriteByte
      by (simp add: step_bytewise(1) [OF v] fifo_step_bytewise(1) del: step.simps fifo_step.simps)
  next
    case (Read n)
    with rd [of n] show ?thesis by simp
  next
    case ReadByte
    with rd [of 1] show ?thesis
      by (simp add: step_bytewise(2) [OF v] fifo_step_bytewise(2) del: step.simps fifo_step.simps)
  qed
qed


lemma bytes_in_Cons: "bytes_in (c # cs) = offered c @ bytes_in cs"
  by (simp add: bytes_in_def)

lemma bytes_out_Cons: "bytes_out (r # rs) = delivered r @ bytes_out rs"
  by (simp add: bytes_out_def)

lemma run_refines:
  "valid rb \<Longrightarrow> Capacity rb \<noteq> 0 \<Longrightarrow> list_all sized cs \<Longrightarrow>
   unwrapped rb (length (bytes_in cs)) \<Longrightarrow>
   \<exists>rb'. run rb cs = Inr (rb', snd (fifo_run (unat (Capacity rb)) (pending rb) cs)) \<and>
         pending rb' = fst (fifo_run (unat (Capacity rb)) (pending rb) cs) \<and>
         valid rb' \<and> Capacity rb' = Capacity rb"
proof (induction cs arbitrary: rb)
  case Nil
  then show ?case by simp
next
  case (Cons c cs)
  let ?cap = "unat (Capacity rb)"
  from Cons.prems have s: "sized c" and ss: "list_all sized cs" by simp_all
  have k: "length (offered c) \<le> length (bytes_in (c # cs))" by (simp add: bytes_in_Cons)
  from step_refines [OF Cons.prems(1,2,4) s k] obtain rb1 where
    st: "step rb c = Inr (rb1, snd (fifo_step ?cap (pending rb) c))" and
    p1: "pending rb1 = fst (fifo_step ?cap (pending rb) c)" and
    v1: "valid rb1" and c1: "Capacity rb1 = Capacity rb" and
    u1: "unwrapped rb1 (length (bytes_in (c # cs)) - length (offered c))"
    by blast
  from u1 have u1': "unwrapped rb1 (length (bytes_in cs))" by (simp add: bytes_in_Cons)
  from Cons.prems(2) c1 have c1': "Capacity rb1 \<noteq> 0" by simp
  from Cons.IH [OF v1 c1' ss u1'] obtain rb' where
    r: "run rb1 cs = Inr (rb', snd (fifo_run (unat (Capacity rb1)) (pending rb1) cs))" and
    p: "pending rb' = fst (fifo_run (unat (Capacity rb1)) (pending rb1) cs)" and
    v: "valid rb'" and c': "Capacity rb' = Capacity rb1"
    by blast
  from st r p v c' show ?case
    by (intro exI [of _ rb']) (simp add: c1 p1 split_beta Let_def del: fifo_step.simps)
qed

lemma fifo_step_conserves:
  "length (offered c) \<le> cap - length q \<Longrightarrow>
   q @ offered c = delivered (snd (fifo_step cap q c)) @ fst (fifo_step cap q c)"
  by (cases c) (auto simp: Let_def min_absorb1 split: list.splits)

lemma cap_below: "unat (w::size_t) < 2 ^ 64"
  using unsigned_less [of w, where 'a = nat] by simp

lemma run_conserves:
  "valid rb \<Longrightarrow> Capacity rb \<noteq> 0 \<Longrightarrow> fits rb cs \<Longrightarrow>
   unwrapped rb (length (bytes_in cs)) \<Longrightarrow>
   \<exists>rb' rs. run rb cs = Inr (rb', rs) \<and> valid rb' \<and>
         pending rb @ bytes_in cs = bytes_out rs @ pending rb'"
proof (induction cs arbitrary: rb)
  case Nil
  then show ?case by (simp add: bytes_in_def bytes_out_def)
next
  case (Cons c cs)
  let ?cap = "unat (Capacity rb)"
  let ?r = "snd (fifo_step ?cap (pending rb) c)"
  from Cons.prems(1) have cnt: "CountRingBuffer rb \<le> Capacity rb" by (simp add: valid_def)
  from Cons.prems(3) have room: "length (offered c) \<le> unat (FreeSpaceRingBuffer rb)" by simp
  also have "\<dots> < 2 ^ 64" by (rule cap_below)
  finally have s: "sized c" by (simp add: sized_def)
  have k: "length (offered c) \<le> length (bytes_in (c # cs))" by (simp add: bytes_in_Cons)
  from step_refines [OF Cons.prems(1,2,4) s k] obtain rb1 where
    st: "step rb c = Inr (rb1, ?r)" and
    p1: "pending rb1 = fst (fifo_step ?cap (pending rb) c)" and
    v1: "valid rb1" and c1: "Capacity rb1 = Capacity rb" and
    u1: "unwrapped rb1 (length (bytes_in (c # cs)) - length (offered c))"
    by blast
  from u1 have u1': "unwrapped rb1 (length (bytes_in cs))" by (simp add: bytes_in_Cons)
  from Cons.prems(2) c1 have c1': "Capacity rb1 \<noteq> 0" by simp
  from Cons.prems(3) st have f1: "fits rb1 cs" by simp
  from Cons.IH [OF v1 c1' f1 u1'] obtain rb' rs where
    r: "run rb1 cs = Inr (rb', rs)" and v: "valid rb'" and
    eq: "pending rb1 @ bytes_in cs = bytes_out rs @ pending rb'"
    by blast
  from room cnt have "length (offered c) \<le> ?cap - length (pending rb)"
    by (simp add: unat_FreeSpace length_pending [OF Cons.prems(1)])
  from fifo_step_conserves [OF this]
  have "pending rb @ offered c = delivered ?r @ pending rb1" by (simp only: p1)
  then have "pending rb @ bytes_in (c # cs) = delivered ?r @ pending rb1 @ bytes_in cs"
    by (simp add: bytes_in_Cons)
  also have "\<dots> = bytes_out (?r # rs) @ pending rb'" by (simp add: eq bytes_out_Cons)
  finally have "pending rb @ bytes_in (c # cs) = bytes_out (?r # rs) @ pending rb'" .
  with st r v show ?case by (intro exI [of _ rb'] exI [of _ "?r # rs"]) simp
qed

section \<open>A buffer whose cursors wrap around\<close>

lemma run_append:
  "run rb cs = Inr (rb', rs) \<Longrightarrow> run rb' cs' = Inr (rb'', rs') \<Longrightarrow>
   run rb (cs @ cs') = Inr (rb'', rs @ rs')"
proof (induction cs arbitrary: rb rs)
  case Nil
  then show ?case by simp
next
  case (Cons c cs)
  from Cons.prems(1) obtain rb1 r rs1 where
    s: "step rb c = Inr (rb1, r)" and r: "run rb1 cs = Inr (rb', rs1)" and rs: "rs = r # rs1"
    by (auto simp: and_then_def split: sum.splits)
  from Cons.IH [OF r Cons.prems(2)] s rs show ?case by simp
qed

lemma fits_append:
  "run rb cs = Inr (rb', rs) \<Longrightarrow> fits rb cs \<Longrightarrow> fits rb' cs' \<Longrightarrow> fits rb (cs @ cs')"
proof (induction cs arbitrary: rb rs)
  case Nil
  then show ?case by simp
next
  case (Cons c cs)
  from Cons.prems(1) obtain rb1 r rs1 where
    s: "step rb c = Inr (rb1, r)" and r: "run rb1 cs = Inr (rb', rs1)"
    by (auto simp: and_then_def split: sum.splits)
  from Cons.prems(2) s have "fits rb1 cs" by simp
  from Cons.IH [OF r this Cons.prems(3)] Cons.prems(2) s show ?case by simp
qed

lemma fifo_run_append:
  "fifo_run cap q cs = (q', rs) \<Longrightarrow> fifo_run cap q' cs' = (q'', rs') \<Longrightarrow>
   fifo_run cap q (cs @ cs') = (q'', rs @ rs')"
  by (induction cs arbitrary: q rs) (auto simp: Let_def split: prod.splits)

lemma parked_fresh: "fst (InitializeRingBuffer (Some zero_fill) 15) = parked 0"
proof -
  have "map zero_fill [0..<15] = replicate 15 0"
    using map_replicate_const [of "0::BYTE" "[0..<15]"] by (simp add: zero_fill_def [abs_def])
  then show ?thesis by (simp add: Initialize_granted parked_def)
qed

lemma slot: "unat (x mod 15 :: size_t) < 15"
  by (simp add: unat_mod)

lemma update_replicate: "(replicate n x)[i := x] = replicate n x"
  by (induction n arbitrary: i) (auto split: nat.splits)

lemma parked_byte_cycle:
  "run (parked x) [WriteByte 0, ReadByte] = Inr (parked (x + 1), [Written 1, Delivered 1 [0]])"
  "fits (parked x) [WriteByte 0, ReadByte]"
  by (simp_all add: parked_def WriteByteRingBuffer_def ReadByteRingBuffer_def IsFullRingBuffer_def
      IsEmptyRingBuffer_def CountRingBuffer_def FreeSpaceRingBuffer_def umod_def deref_def
      poke_def peek_def slot update_replicate)

lemma parked_byte_spin:
  "run (parked x) (concat (replicate k [WriteByte 0, ReadByte])) =
     Inr (parked (x + of_nat k), concat (replicate k [Written 1, Delivered 1 [0]])) \<and>
   fits (parked x) (concat (replicate k [WriteByte 0, ReadByte]))"
proof (induction k arbitrary: x)
  case 0
  show ?case by simp
next
  case (Suc k)
  from Suc [of "x + 1"] have
    r: "run (parked (x + 1)) (concat (replicate k [WriteByte 0, ReadByte])) =
       Inr (parked (x + of_nat (Suc k)), concat (replicate k [Written 1, Delivered 1 [0]]))"
    and f: "fits (parked (x + 1)) (concat (replicate k [WriteByte 0, ReadByte]))"
    by (simp_all add: ac_simps)
  from run_append [OF parked_byte_cycle(1) r] fits_append [OF parked_byte_cycle(1,2) f]
  show ?case by simp
qed

lemma replicate_15: "replicate 15 x = [x, x, x, x, x, x, x, x, x, x, x, x, x, x, x]"
  by (simp add: numeral_eq_Suc)

lemma slot_minus_one: "unat ((- 1 :: size_t) mod 15) = 0"
  by (simp add: unat_mod)

lemma slot_zero: "unat ((0 :: size_t) mod 15) = 0"
  by simp

lemma parked_minus_one:
  "run (parked (- 1)) [WriteByte 1, WriteByte 2, ReadByte, ReadByte] =
     Inr (\<lparr>Buffer = Some [2, 0, 0, 0, 0, 0, 0, 0, 0, 0, 0, 0, 0, 0, 0], Capacity = 15,
            ReadIndex = 1, WriteIndex = 1\<rparr>,
          [Written 1, Written 1, Delivered 1 [2], Delivered 1 [2]])"
  "fits (parked (- 1)) [WriteByte 1, WriteByte 2, ReadByte, ReadByte]"
  by (simp_all add: parked_def WriteByteRingBuffer_def ReadByteRingBuffer_def IsFullRingBuffer_def
      IsEmptyRingBuffer_def CountRingBuffer_def FreeSpaceRingBuffer_def umod_def deref_def
      poke_def peek_def replicate_15 slot_minus_one)


lemma bytes_in_append: "bytes_in (cs @ cs') = bytes_in cs @ bytes_in cs'"
  by (simp add: bytes_in_def)

lemma bytes_out_append: "bytes_out (rs @ rs') = bytes_out rs @ bytes_out rs'"
  by (simp add: bytes_out_def)

lemma bytes_in_byte_spin: "bytes_in (concat (replicate k [WriteByte 0, ReadByte])) = replicate k 0"
  by (induction k) (simp_all add: bytes_in_def)

lemma bytes_in_bulk_spin: "bytes_in (concat (replicate k [Write [0], Read 1])) = replicate k 0"
  by (induction k) (simp_all add: bytes_in_def)

lemma bytes_out_spin: "bytes_out (concat (replicate k [Written 1, Delivered 1 [0]])) = replicate k 0"
  by (induction k) (simp_all add: bytes_out_def)

lemma parked_bulk_cycle:
  "run (parked x) [Write [0], Read 1] = Inr (parked (x + 1), [Written 1, Delivered 1 [0]])"
proof -
  let ?mid = "\<lparr>Buffer = Some (replicate 15 0), Capacity = 15, ReadIndex = x, WriteIndex = x + 1\<rparr>"
  have v: "valid (parked x)" by (simp add: valid_def parked_def CountRingBuffer_def)
  have vm: "valid ?mid" by (simp add: valid_def CountRingBuffer_def word_le_nat_alt)
  have w: "step (parked x) (WriteByte 0) = Inr (?mid, Written 1)"
    by (simp add: parked_def WriteByteRingBuffer_def IsFullRingBuffer_def CountRingBuffer_def
        umod_def deref_def poke_def slot update_replicate)
  have r: "step ?mid ReadByte = Inr (parked (x + 1), Delivered 1 [0])"
    by (simp add: parked_def ReadByteRingBuffer_def IsEmptyRingBuffer_def CountRingBuffer_def
        umod_def deref_def peek_def slot)
  from w r show ?thesis
    by (simp add: step_bytewise(1) [OF v, symmetric] step_bytewise(2) [OF vm, symmetric]
        del: step.simps)
qed

lemma parked_bulk_spin:
  "run (parked x) (concat (replicate k [Write [0], Read 1])) =
     Inr (parked (x + of_nat k), concat (replicate k [Written 1, Delivered 1 [0]]))"
proof (induction k arbitrary: x)
  case 0
  show ?case by simp
next
  case (Suc k)
  from Suc [of "x + 1"] have
    r: "run (parked (x + 1)) (concat (replicate k [Write [0], Read 1])) =
       Inr (parked (x + of_nat (Suc k)), concat (replicate k [Written 1, Delivered 1 [0]]))"
    by (simp add: ac_simps)
  from run_append [OF parked_bulk_cycle r] show ?case by simp
qed

lemma fifo_bulk_spin:
  "fifo_run 15 [] (concat (replicate k [Write [0], Read 1])) =
     ([], concat (replicate k [Written 1, Delivered 1 [0]]))"
  by (induction k) (simp_all add: Let_def)

lemma slot_minus_two: "unat ((- 2 :: size_t) mod 15) = 14"
  by (simp add: unat_mod)

lemma parked_minus_two:
  "run (parked (- 2)) [Write [1, 2, 3], Read 1, Read 1, Read 1] =
     Inr (\<lparr>Buffer = Some [2, 3, 0, 0, 0, 0, 0, 0, 0, 0, 0, 0, 0, 0, 1], Capacity = 15,
            ReadIndex = 1, WriteIndex = 1\<rparr>,
          [Written 3, Delivered 1 [1], Delivered 1 [2], Delivered 1 [2]])"
  by (simp add: parked_def WriteRingBuffer_def ReadRingBuffer_def
      CountRingBuffer_def FreeSpaceRingBuffer_def umod_def deref_def
      memcpy_def Let_def word_le_nat_alt replicate_15 slot_minus_two slot_minus_one)

lemma pending_parked: "pending (parked x) = []"
  by (simp add: pending_def parked_def CountRingBuffer_def copy_out_def)

section \<open>Claims on the byte stream\<close>

text \<open>
  Claim C1 as stated fails once a cursor has wrapped around. On a fresh buffer of capacity 15,
  \<open>2 ^ 64 - 1\<close> rounds of writing and reading one byte leave both cursors at
  \<open>2 ^ 64 - 1\<close>, whose remainder modulo 15 is 0. The next byte, 1, is stored at offset 0,
  and \<open>WriteIndex\<close> wraps to 0, whose remainder is 0 again: the byte after it, 2,
  overwrites the unread 1. The two reads that follow take offset 0 both (\<open>ReadIndex\<close> is
  \<open>2 ^ 64 - 1\<close>, then 0) and deliver 2, 2. Every write had room, and the buffer is empty
  at the start and at the end; the bytes written end in 1, 2 and the bytes read in 2, 2.
\<close>

theorem fifo_conservation_counterexample:
  "fits (fst (InitializeRingBuffer (Some zero_fill) 15))
     (concat (replicate (2 ^ 64 - 1) [WriteByte 0, ReadByte]) @
      [WriteByte 1, WriteByte 2, ReadByte, ReadByte]) \<and>
   run (fst (InitializeRingBuffer (Some zero_fill) 15))
     (concat (replicate (2 ^ 64 - 1) [WriteByte 0, ReadByte]) @
      [WriteByte 1, WriteByte 2, ReadByte, ReadByte]) =
     Inr (\<lparr>Buffer = Some [2, 0, 0, 0, 0, 0, 0, 0, 0, 0, 0, 0, 0, 0, 0], Capacity = 15,
            ReadIndex = 1, WriteIndex = 1\<rparr>,
          concat (replicate (2 ^ 64 - 1) [Written 1, Delivered 1 [0]]) @
          [Written 1, Written 1, Delivered 1 [2], Delivered 1 [2]]) \<and>
   IsEmptyRingBuffer (fst (InitializeRingBuffer (Some zero_fill) 15)) \<and>
   IsEmptyRingBuffer \<lparr>Buffer = Some [2, 0, 0, 0, 0, 0, 0, 0, 0, 0, 0, 0, 0, 0, 0], Capacity = 15,
                       ReadIndex = 1, WriteIndex = 1\<rparr> \<and>
   bytes_in (concat (replicate (2 ^ 64 - 1) [WriteByte 0, ReadByte]) @
             [WriteByte 1, WriteByte 2, ReadByte, ReadByte]) = replicate (2 ^ 64 - 1) 0 @ [1, 2] \<and>
   bytes_out (concat (replicate (2 ^ 64 - 1) [Written 1, Delivered 1 [0]]) @
              [Written 1, Written 1, Delivered 1 [2], Delivered 1 [2]]) =
     replicate (2 ^ 64 - 1) 0 @ [2, 2]"
proof -
  have x: "(0::size_t) + of_nat (2 ^ 64 - 1) = - 1" by simp
  from parked_byte_spin [of 0 "2 ^ 64 - 1"] have
    r: "run (parked 0) (concat (replicate (2 ^ 64 - 1) [WriteByte 0, ReadByte])) =
       Inr (parked (- 1), concat (replicate (2 ^ 64 - 1) [Written 1, Delivered 1 [0]]))"
    and f: "fits (parked 0) (concat (replicate (2 ^ 64 - 1) [WriteByte 0, ReadByte]))"
    by (simp_all only: x)
  note run_append [OF r parked_minus_one(1)] fits_append [OF r f parked_minus_one(2)]
  moreover have "IsEmptyRingBuffer (parked 0)"
    by (simp add: IsEmptyRingBuffer_def CountRingBuffer_def parked_def)
  moreover have "IsEmptyRingBuffer
      \<lparr>Buffer = Some [2, 0, 0, 0, 0, 0, 0, 0, 0, 0, 0, 0, 0, 0, 0], Capacity = 15,
         ReadIndex = 1, WriteIndex = 1\<rparr>"
    by (simp add: IsEmptyRingBuffer_def CountRingBuffer_def)
  moreover have "bytes_in (concat (replicate (2 ^ 64 - 1) [WriteByte 0, ReadByte]) @
             [WriteByte 1, WriteByte 2, ReadByte, ReadByte]) = replicate (2 ^ 64 - 1) 0 @ [1, 2]"
    by (simp only: bytes_in_append bytes_in_byte_spin) (simp add: bytes_in_def)
  moreover have "bytes_out (concat (replicate (2 ^ 64 - 1) [Written 1, Delivered 1 [0]]) @
              [Written 1, Written 1, Delivered 1 [2], Delivered 1 [2]]) =
     replicate (2 ^ 64 - 1) 0 @ [2, 2]"
    by (simp only: bytes_out_append bytes_out_spin) (simp add: bytes_out_def)
  ultimately show ?thesis by (simp only: parked_fresh)
qed

text \<open>
  Claim C1 (FIFO conservation), amended. Take a well-formed buffer of capacity greater than
  0 and a sequence of calls none of which offers more bytes than the free space at its
  time, and let the cursors be unwrapped for the bytes offered: the capacity divides
  \<open>2 ^ 64\<close>, or the write cursor, not passed by the read cursor, stays below \<open>2 ^ 64\<close>
  (on a fresh buffer: fewer than \<open>2 ^ 64\<close> bytes are offered in all). Then no call
  faults, and the bytes held before followed by the bytes written are, byte for byte and in
  order, the bytes read followed by the bytes held after. From an empty buffer to an empty
  buffer, the bytes read are the bytes written.
\<close>

theorem fifo_conservation:
  assumes "valid rb" and "Capacity rb \<noteq> 0" and "fits rb cs"
    and "unwrapped rb (length (bytes_in cs))"
  shows "\<exists>rb' rs. run rb cs = Inr (rb', rs) \<and>
           pending rb @ bytes_in cs = bytes_out rs @ pending rb' \<and>
           length (pending rb') = unat (CountRingBuffer rb') \<and>
           (IsEmptyRingBuffer rb \<and> IsEmptyRingBuffer rb' \<longrightarrow> bytes_out rs = bytes_in cs)"
proof -
  from run_conserves [OF assms] obtain rb' rs where
    r: "run rb cs = Inr (rb', rs)" and v: "valid rb'" and
    eq: "pending rb @ bytes_in cs = bytes_out rs @ pending rb'"
    by blast
  note l = length_pending [OF assms(1)] and l' = length_pending [OF v]
  have "bytes_out rs = bytes_in cs" if "IsEmptyRingBuffer rb" and "IsEmptyRingBuffer rb'"
    using that eq l l' by (simp add: IsEmptyRingBuffer_def)
  with r eq l' show ?thesis by blast
qed

theorem fifo_conservation_witness:
  "valid \<lparr>Buffer = Some [0, 0, 0], Capacity = 3, ReadIndex = 0, WriteIndex = 0\<rparr> \<and>
   fits \<lparr>Buffer = Some [0, 0, 0], Capacity = 3, ReadIndex = 0, WriteIndex = 0\<rparr>
     [Write [1, 2], ReadByte, Write [3, 4], Read 3] \<and>
   unwrapped \<lparr>Buffer = Some [0, 0, 0], Capacity = 3, ReadIndex = 0, WriteIndex = 0\<rparr>
     (length (bytes_in [Write [1, 2], ReadByte, Write [3, 4], Read 3])) \<and>
   (\<exists>rb' rs. run \<lparr>Buffer = Some [0, 0, 0], Capacity = 3, ReadIndex = 0, WriteIndex = 0\<rparr>
       [Write [1, 2], ReadByte, Write [3, 4], Read 3] = Inr (rb', rs) \<and>
     bytes_out rs = [1, 2, 3, 4])"
proof -
  let ?rb = "\<lparr>Buffer = Some [0, 0, 0], Capacity = 3, ReadIndex = 0, WriteIndex = 0\<rparr>"
  let ?cs = "[Write [1, 2], ReadByte, Write [3, 4], Read 3]"
  have v: "valid ?rb" by (simp add: valid_def CountRingBuffer_def)
  have c: "Capacity ?rb \<noteq> 0" by simp
  have r: "run ?rb ?cs =
      Inr (\<lparr>Buffer = Some [4, 2, 3], Capacity = 3, ReadIndex = 4, WriteIndex = 4\<rparr>,
           [Written 2, Delivered 1 [1], Written 2, Delivered 3 [2, 3, 4]])"
    by (simp add: WriteRingBuffer_def ReadRingBuffer_def ReadByteRingBuffer_def
        IsEmptyRingBuffer_def CountRingBuffer_def FreeSpaceRingBuffer_def umod_def deref_def
        memcpy_def peek_def Let_def word_le_nat_alt)
  have f: "fits ?rb ?cs"
    by (simp add: WriteRingBuffer_def ReadRingBuffer_def ReadByteRingBuffer_def
        IsEmptyRingBuffer_def CountRingBuffer_def FreeSpaceRingBuffer_def umod_def deref_def
        memcpy_def peek_def Let_def word_le_nat_alt)
  have u: "unwrapped ?rb (length (bytes_in ?cs))"
    by (simp add: unwrapped_def bytes_in_def)
  have e: "IsEmptyRingBuffer ?rb" by (simp add: IsEmptyRingBuffer_def CountRingBuffer_def)
  from fifo_conservation [OF v c f u] obtain rb' rs where
    a: "run ?rb ?cs = Inr (rb', rs)" and
    b: "IsEmptyRingBuffer ?rb \<and> IsEmptyRingBuffer rb' \<longrightarrow> bytes_out rs = bytes_in ?cs"
    by blast
  from a have "rb' = \<lparr>Buffer = Some [4, 2, 3], Capacity = 3, ReadIndex = 4, WriteIndex = 4\<rparr>"
    by (simp only: r) simp
  then have "IsEmptyRingBuffer rb'" by (simp add: IsEmptyRingBuffer_def CountRingBuffer_def)
  with b e have "bytes_out rs = bytes_in ?cs" by blast
  then have "bytes_out rs = [1, 2, 3, 4]" by (simp add: bytes_in_def)
  with a v f u show ?thesis by blast
qed

text \<open>
  Claim C4 as stated fails once a cursor has wrapped around. On a fresh buffer of capacity 15,
  after \<open>2 ^ 64 - 2\<close> rounds of a one-byte write and a one-byte read both cursors are
  \<open>2 ^ 64 - 2\<close>, at offset 14. Writing 1, 2, 3 straddles the end of the block: 1 goes to
  offset 14, and 2, 3 to offsets 0, 1. Three one-byte reads then take offset 14, offset 0
  (\<open>ReadIndex = 2 ^ 64 - 1\<close>) and offset 0 again (\<open>ReadIndex\<close> wrapped to 0): they
  deliver 1, 2, 2, where the unbounded queue delivers 1, 2, 3.
\<close>

theorem wraparound_refinement_counterexample:
  "run (fst (InitializeRingBuffer (Some zero_fill) 15))
     (concat (replicate (2 ^ 64 - 2) [Write [0], Read 1]) @
      [Write [1, 2, 3], Read 1, Read 1, Read 1]) =
     Inr (\<lparr>Buffer = Some [2, 3, 0, 0, 0, 0, 0, 0, 0, 0, 0, 0, 0, 0, 1], Capacity = 15,
            ReadIndex = 1, WriteIndex = 1\<rparr>,
          concat (replicate (2 ^ 64 - 2) [Written 1, Delivered 1 [0]]) @
          [Written 3, Delivered 1 [1], Delivered 1 [2], Delivered 1 [2]]) \<and>
   fifo_run 15 (pending (fst (InitializeRingBuffer (Some zero_fill) 15)))
     (concat (replicate (2 ^ 64 - 2) [Write [0], Read 1]) @
      [Write [1, 2, 3], Read 1, Read 1, Read 1]) =
     ([], concat (replicate (2 ^ 64 - 2) [Written 1, Delivered 1 [0]]) @
          [Written 3, Delivered 1 [1], Delivered 1 [2], Delivered 1 [3]])"
proof -
  have x: "(0::size_t) + of_nat (2 ^ 64 - 2) = - 2" by simp
  from parked_bulk_spin [of 0 "2 ^ 64 - 2"] have
    r: "run (parked 0) (concat (replicate (2 ^ 64 - 2) [Write [0], Read 1])) =
       Inr (parked (- 2), concat (replicate (2 ^ 64 - 2) [Written 1, Delivered 1 [0]]))"
    by (simp only: x)
  have t: "fifo_run 15 [] [Write [1, 2, 3], Read 1, Read 1, Read 1] =
      ([], [Written 3, Delivered 1 [1], Delivered 1 [2], Delivered 1 [3]])"
    by (simp add: Let_def)
  note run_append [OF r parked_minus_two] fifo_run_append [OF fifo_bulk_spin t]
  then show ?thesis by (simp only: parked_fresh pending_parked)
qed

text \<open>
  Claim C4 (wraparound correctness), amended. Take a well-formed buffer of capacity greater
  than 0 and a sequence of calls whose blocks have lengths that fit \<^verbatim>\<open>size_t\<close>, and let
  the cursors be unwrapped for the bytes offered (the capacity divides \<open>2 ^ 64\<close>, or the
  write cursor stays below \<open>2 ^ 64\<close>). Then the ring, wherever its copies straddle the
  end of the block, answers every call as the unbounded queue does that starts with the
  bytes the ring holds: the same counts, the same bytes delivered, and in the end the same
  bytes held.
\<close>

theorem wraparound_refinement:
  assumes "valid rb" and "Capacity rb \<noteq> 0" and "list_all sized cs"
    and "unwrapped rb (length (bytes_in cs))"
  shows "\<exists>rb'. run rb cs = Inr (rb', snd (fifo_run (unat (Capacity rb)) (pending rb) cs)) \<and>
           pending rb' = fst (fifo_run (unat (Capacity rb)) (pending rb) cs)"
  using run_refines [OF assms] by blast

theorem wraparound_refinement_witness:
  "valid \<lparr>Buffer = Some [0, 0, 0], Capacity = 3, ReadIndex = 0, WriteIndex = 0\<rparr> \<and>
   list_all sized [Write [1, 2], ReadByte, Write [3, 4, 5], Read 3] \<and>
   unwrapped \<lparr>Buffer = Some [0, 0, 0], Capacity = 3, ReadIndex = 0, WriteIndex = 0\<rparr>
     (length (bytes_in [Write [1, 2], ReadByte, Write [3, 4, 5], Read 3])) \<and>
   fifo_run 3 [] [Write [1, 2], ReadByte, Write [3, 4, 5], Read 3] =
     ([], [Written 2, Delivered 1 [1], Written 2, Delivered 3 [2, 3, 4]]) \<and>
   (\<exists>rb'. run \<lparr>Buffer = Some [0, 0, 0], Capacity = 3, ReadIndex = 0, WriteIndex = 0\<rparr>
       [Write [1, 2], ReadByte, Write [3, 4, 5], Read 3] =
     Inr (rb', [Written 2, Delivered 1 [1], Written 2, Delivered 3 [2, 3, 4]]))"
proof -
  let ?rb = "\<lparr>Buffer = Some [0, 0, 0], Capacity = 3, ReadIndex = 0, WriteIndex = 0\<rparr>"
  let ?cs = "[Write [1, 2], ReadByte, Write [3, 4, 5], Read 3]"
  have v: "valid ?rb" by (simp add: valid_def CountRingBuffer_def)
  have c: "Capacity ?rb \<noteq> 0" by simp
  have s: "list_all sized ?cs" by (simp add: sized_def)
  have u: "unwrapped ?rb (length (bytes_in ?cs))"
    by (simp add: unwrapped_def bytes_in_def)
  have p: "pending ?rb = []" by (simp add: pending_def CountRingBuffer_def copy_out_def)
  have q: "fifo_run 3 [] ?cs = ([], [Written 2, Delivered 1 [1], Written 2, Delivered 3 [2, 3, 4]])"
    by (simp add: Let_def)
  have r: "run ?rb ?cs =
      Inr (\<lparr>Buffer = Some [4, 2, 3], Capacity = 3, ReadIndex = 4, WriteIndex = 4\<rparr>,
           [Written 2, Delivered 1 [1], Written 2, Delivered 3 [2, 3, 4]])"
    by (simp add: WriteRingBuffer_def ReadRingBuffer_def ReadByteRingBuffer_def
        IsEmptyRingBuffer_def CountRingBuffer_def FreeSpaceRingBuffer_def umod_def deref_def
        memcpy_def peek_def Let_def word_le_nat_alt)
  from wraparound_refinement [OF v c s u] show ?thesis
    using v s u by (simp add: p q r del: run.simps fifo_run.simps)
qed

section \<open>The byte-by-byte variant against the split copies\<close>

declare WriteRingBuffer_slow_loop.simps [simp del]
declare ReadRingBuffer_slow_loop.simps [simp del]

lemma IsFull_v1: "IsFullRingBuffer_v1 rb = IsFullRingBuffer rb"
proof -
  have "FreeSpaceRingBuffer_v1 rb = Capacity rb - CountRingBuffer rb"
    by (simp add: FreeSpaceRingBuffer_v1_def CountRingBuffer_def)
  then show ?thesis
    by (auto simp: IsFullRingBuffer_v1_def IsFullRingBuffer_def)
qed

lemma ring_next_apart:
  fixes i c :: nat
  assumes "j < n" "Suc n \<le> c"
  shows "i mod c \<noteq> (i + 1 + j) mod c"
  using ring_apart [of 0 1 j n c i] assms by simp

lemma copy_in_Cons:
  assumes i: "i < length bs" and l: "Suc (length xs) \<le> length bs"
  shows "copy_in bs i (x # xs) = copy_in (bs[i := x]) ((i + 1) mod length bs) xs"
proof (rule nth_equalityI)
  let ?c = "length bs"
  let ?i' = "(i + 1) mod ?c"
  from i have c0: "0 < ?c" by (cases bs) simp_all
  then have i': "?i' < length (bs[i := x])" by simp
  from l have l1: "length (x # xs) \<le> ?c" and l2: "length xs \<le> length (bs[i := x])" by simp_all
  show "length (copy_in bs i (x # xs)) = length (copy_in (bs[i := x]) ?i' xs)"
    by (simp only: length_copy_in [OF i l1] length_copy_in [OF i' l2] length_list_update)
  fix p assume "p < length (copy_in bs i (x # xs))"
  then have p: "p < ?c" by (simp only: length_copy_in [OF i l1])
  then have p': "p < length (bs[i := x])" by simp
  have im: "i mod ?c = i" using i by simp
  show "copy_in bs i (x # xs) ! p = copy_in (bs[i := x]) ?i' xs ! p"
  proof (cases "\<exists>j<length (x # xs). p = (i + j) mod ?c")
    case True
    then obtain j where j: "j < length (x # xs)" and pj: "p = (i + j) mod ?c" by blast
    from nth_copy_in_written [OF i l1 j] have lhs: "copy_in bs i (x # xs) ! p = (x # xs) ! j"
      by (simp only: pj)
    show ?thesis
    proof (cases j)
      case 0
      with pj im have pi: "p = i" by simp
      have "\<forall>j'<length xs. p \<noteq> (?i' + j') mod length (bs[i := x])"
      proof (intro allI impI)
        fix j' assume "j' < length xs"
        from ring_next_apart [OF this l, of i]
        show "p \<noteq> (?i' + j') mod length (bs[i := x])"
          by (simp add: pi im mod_add_left_eq)
      qed
      from nth_copy_in_kept [OF i' l2 p' this] 0 lhs pi i show ?thesis by simp
    next
      case (Suc j0)
      with j have j0: "j0 < length xs" by simp
      have "(?i' + j0) mod length (bs[i := x]) = p"
        by (simp add: pj Suc mod_add_left_eq)
      with nth_copy_in_written [OF i' l2 j0] lhs Suc show ?thesis by simp
    qed
  next
    case False
    then have no: "\<forall>j<length (x # xs). p \<noteq> (i + j) mod ?c" by blast
    from nth_copy_in_kept [OF i l1 p no] have lhs: "copy_in bs i (x # xs) ! p = bs ! p" .
    have "(0::nat) < length (x # xs)" by simp
    with no have "p \<noteq> (i + 0) mod ?c" by blast
    then have pi: "p \<noteq> i" using im by simp
    have "\<forall>j'<length xs. p \<noteq> (?i' + j') mod length (bs[i := x])"
    proof (intro allI impI)
      fix j' assume "j' < length xs"
      then have "Suc j' < length (x # xs)" by simp
      with no have "p \<noteq> (i + Suc j') mod ?c" by blast
      then show "p \<noteq> (?i' + j') mod length (bs[i := x])"
        by (simp add: mod_add_left_eq)
    qed
    from nth_copy_in_kept [OF i' l2 p' this] lhs pi show ?thesis by simp
  qed
qed

lemma copy_out_Suc:
  assumes i: "i < length bs" and l: "Suc n \<le> length bs"
  shows "copy_out bs i (Suc n) = bs ! i # copy_out bs ((i + 1) mod length bs) n"
proof -
  have "(1::nat) \<le> Suc n" by simp
  from copy_out_split [OF i this l] copy_out_single [OF i] show ?thesis by simp
qed

lemma copy_out_0: "copy_out bs i 0 = []"
  by (simp add: copy_out_def)


lemma unat_succ_mod:
  fixes w :: size_t
  assumes "c dvd 2 ^ 64 \<or> unat w + 1 < 2 ^ 64"
  shows "unat (w + 1) mod c = (unat w mod c + 1) mod c"
proof -
  from assms have "c dvd 2 ^ 64 \<or> unat w + unat (1::size_t) < 2 ^ 64" by simp
  from unat_add_mod_coherent [OF this] show ?thesis by (simp add: mod_Suc_eq)
qed

lemma unat_succ_le: "unat (w + 1 :: size_t) \<le> unat w + 1"
proof -
  have "unat (w + 1) = (unat w + unat (1::size_t)) mod 2 ^ 64"
    by (simp only: unat_word_ariths) simp
  then show ?thesis by simp
qed

lemma slow_write_loop:
  "valid rb \<Longrightarrow> Capacity rb \<noteq> 0 \<Longrightarrow> Buffer rb = Some bs \<Longrightarrow>
   n = unat (min (FreeSpaceRingBuffer rb) Size) \<Longrightarrow> k + n \<le> length Data \<Longrightarrow>
   unat (Capacity rb) dvd 2 ^ 64 \<or> unat (WriteIndex rb) + n \<le> 2 ^ 64 \<Longrightarrow>
   WriteRingBuffer_slow_loop rb Data k Size =
     Inr (rb\<lparr>Buffer := Some (copy_in bs (unat (WriteIndex rb) mod unat (Capacity rb))
                  (take n (drop k Data))),
             WriteIndex := WriteIndex rb + of_nat n\<rparr>, k + n)"
proof (induction n arbitrary: rb bs k Size)
  case 0
  from 0(1) have cnt: "CountRingBuffer rb \<le> Capacity rb" by (simp add: valid_def)
  from 0(4) have "min (unat (FreeSpaceRingBuffer rb)) (unat Size) = 0" by (simp add: unat_min)
  then have "FreeSpaceRingBuffer rb = 0 \<or> Size = 0" by (auto simp: min_def unat_eq_0 split: if_splits)
  then have stop: "IsFullRingBuffer_v1 rb \<or> Size = 0"
    by (auto simp: IsFull_v1 IsFullRingBuffer_def FreeSpaceRingBuffer_def)
  have "rb\<lparr>Buffer := Some bs\<rparr> = rb" using 0(3) by simp
  with stop show ?case
    by (subst WriteRingBuffer_slow_loop.simps) (auto simp: copy_in_Nil)
next
  case (Suc n)
  let ?cap = "unat (Capacity rb)"
  let ?i = "unat (WriteIndex rb) mod ?cap"
  let ?b = "Data ! k"
  let ?rb1 = "rb\<lparr>Buffer := Some (bs[?i := ?b]), WriteIndex := WriteIndex rb + 1\<rparr>"
  note v = Suc.prems(1) and c = Suc.prems(2) and bf = Suc.prems(3)
  from v bf have len: "length bs = ?cap" and cnt: "CountRingBuffer rb \<le> Capacity rb"
    by (auto simp: valid_def)
  from c have "0 < ?cap" by (simp add: unat_gt_0)
  then have i: "?i < length bs" by (simp add: len)
  from Suc.prems(4) have m: "min (unat (FreeSpaceRingBuffer rb)) (unat Size) = Suc n"
    by (simp add: unat_min)
  then have free: "Suc n \<le> unat (FreeSpaceRingBuffer rb)" and size: "Suc n \<le> unat Size"
    by (auto simp: min_def split: if_splits)
  from free have nf: "\<not> IsFullRingBuffer rb"
    by (auto simp: IsFullRingBuffer_def FreeSpaceRingBuffer_def)
  from size have s0: "Size \<noteq> 0" by auto
  from Suc.prems(5) have kd: "k < length Data" by simp
  have cnt1: "CountRingBuffer rb < Capacity rb"
    using cnt nf by (simp add: IsFullRingBuffer_def le_neq_trans)
  then have cnt1': "CountRingBuffer rb + 1 \<le> Capacity rb" by (rule inc_le)
  have one: "(1::size_t) \<le> Capacity rb - CountRingBuffer rb"
    using free by (simp add: FreeSpaceRingBuffer_def word_le_nat_alt)
  have v1: "valid ?rb1"
    using cnt1' by (simp add: valid_def Count_advance_write len)
  have c1: "Capacity ?rb1 \<noteq> 0" using c by simp
  have b1: "Buffer ?rb1 = Some (bs[?i := ?b])" by simp
  have ucnt: "unat (CountRingBuffer rb + 1) = unat (CountRingBuffer rb) + 1"
    using word_add_within(2) [OF cnt one] by simp
  have free1: "unat (FreeSpaceRingBuffer ?rb1) = unat (FreeSpaceRingBuffer rb) - 1"
    using cnt cnt1' by (simp add: unat_FreeSpace Count_advance_write ucnt)
  have size1: "unat (Size - 1) = unat Size - 1" using s0 by (rule unat_minus_one)
  have "unat (min (FreeSpaceRingBuffer ?rb1) (Size - 1)) =
      min (unat (FreeSpaceRingBuffer rb) - 1) (unat Size - 1)"
    by (simp only: unat_min free1 size1)
  also have "\<dots> = n" using m by (auto simp: min_def split: if_splits)
  finally have n1: "n = unat (min (FreeSpaceRingBuffer ?rb1) (Size - 1))" by (rule sym)
  have k1: "k + 1 + n \<le> length Data" using Suc.prems(5) by simp
  have w1: "unat (Capacity ?rb1) dvd 2 ^ 64 \<or> unat (WriteIndex ?rb1) + n \<le> 2 ^ 64"
    using Suc.prems(6) unat_succ_le [of "WriteIndex rb"] by auto
  note ih = Suc.IH [OF v1 c1 b1 n1 k1 w1]
  have sel: "WriteIndex ?rb1 = WriteIndex rb + 1" "Capacity ?rb1 = Capacity rb" by simp_all
  have tk: "take (Suc n) (drop k Data) = ?b # take n (drop (k + 1) Data)"
    using kd by (simp add: Cons_nth_drop_Suc [symmetric])
  have buf: "copy_in (bs[?i := ?b]) (unat (WriteIndex rb + 1) mod ?cap) (take n (drop (k + 1) Data)) =
      copy_in bs ?i (take (Suc n) (drop k Data))"
  proof (cases n)
    case 0
    with tk have t: "take (Suc n) (drop k Data) = [?b]" by simp
    show ?thesis unfolding t using 0 by (simp add: copy_in_Nil copy_in_single [OF i])
  next
    case (Suc n')
    with Suc.prems(6) have "?cap dvd 2 ^ 64 \<or> unat (WriteIndex rb) + 1 < 2 ^ 64" by auto
    from unat_succ_mod [OF this] have ix: "unat (WriteIndex rb + 1) mod ?cap = (?i + 1) mod length bs"
      by (simp add: len)
    have "length (take n (drop (k + 1) Data)) = n" using k1 by simp
    moreover have "Suc n \<le> length bs"
      using free cnt by (simp add: unat_FreeSpace len)
    ultimately have "Suc (length (take n (drop (k + 1) Data))) \<le> length bs" by simp
    from copy_in_Cons [OF i this, of ?b] show ?thesis by (simp only: tk ix)
  qed
  have "WriteRingBuffer_slow_loop rb Data k Size =
      WriteRingBuffer_slow_loop ?rb1 Data (k + 1) (Size - 1)"
    using nf s0 kd c bf i
    by (subst WriteRingBuffer_slow_loop.simps)
      (simp add: IsFull_v1 peek_def umod_def deref_def poke_def unat_mod)
  also have "\<dots> =
      Inr (?rb1\<lparr>Buffer := Some (copy_in bs ?i (take (Suc n) (drop k Data))),
                WriteIndex := WriteIndex rb + 1 + of_nat n\<rparr>, k + 1 + n)"
    using ih by (simp only: sel buf)
  finally show ?case by (simp add: add.assoc)
qed


lemma slow_read_loop:
  "valid rb \<Longrightarrow> Capacity rb \<noteq> 0 \<Longrightarrow> Buffer rb = Some bs \<Longrightarrow>
   n = unat (min (CountRingBuffer rb) Size) \<Longrightarrow> k + n \<le> length Out \<Longrightarrow>
   unat (Capacity rb) dvd 2 ^ 64 \<or> unat (ReadIndex rb) + n \<le> 2 ^ 64 \<Longrightarrow>
   ReadRingBuffer_slow_loop rb Out k Size =
     Inr (rb\<lparr>ReadIndex := ReadIndex rb + of_nat n\<rparr>,
          take k Out @ copy_out bs (unat (ReadIndex rb) mod unat (Capacity rb)) n @
          drop (k + n) Out,
          k + n)"
proof (induction n arbitrary: rb k Size Out)
  case 0
  from 0(4) have "min (unat (CountRingBuffer rb)) (unat Size) = 0" by (simp add: unat_min)
  then have "CountRingBuffer rb = 0 \<or> Size = 0"
    by (auto simp: min_def unat_eq_0 split: if_splits)
  then have stop: "IsEmptyRingBuffer rb \<or> Size = 0" by (simp add: IsEmptyRingBuffer_def)
  then show ?case
    by (subst ReadRingBuffer_slow_loop.simps) (auto simp: copy_out_0)
next
  case (Suc n)
  let ?cap = "unat (Capacity rb)"
  let ?i = "unat (ReadIndex rb) mod ?cap"
  let ?b = "bs ! ?i"
  let ?rb1 = "rb\<lparr>ReadIndex := ReadIndex rb + 1\<rparr>"
  let ?Out1 = "Out[k := ?b]"
  note v = Suc.prems(1) and c = Suc.prems(2) and bf = Suc.prems(3)
  from v bf have len: "length bs = ?cap" and cnt: "CountRingBuffer rb \<le> Capacity rb"
    by (auto simp: valid_def)
  from c have "0 < ?cap" by (simp add: unat_gt_0)
  then have i: "?i < length bs" by (simp add: len)
  from Suc.prems(4) have m: "min (unat (CountRingBuffer rb)) (unat Size) = Suc n"
    by (simp add: unat_min)
  then have count: "Suc n \<le> unat (CountRingBuffer rb)" and size: "Suc n \<le> unat Size"
    by (auto simp: min_def split: if_splits)
  from count have ne: "\<not> IsEmptyRingBuffer rb" by (auto simp: IsEmptyRingBuffer_def)
  from size have s0: "Size \<noteq> 0" by auto
  from Suc.prems(5) have kd: "k < length Out" by simp
  from count have one: "1 \<le> CountRingBuffer rb" by (simp add: word_le_nat_alt)
  then have "CountRingBuffer rb - 1 \<le> CountRingBuffer rb" by (rule word_sub_le)
  then have "CountRingBuffer rb - 1 \<le> Capacity rb" using cnt by (rule order_trans)
  with v have v1: "valid ?rb1"
    by (simp add: valid_def Count_advance_read split: option.splits)
  have c1: "Capacity ?rb1 \<noteq> 0" using c by simp
  have b1: "Buffer ?rb1 = Some bs" using bf by simp
  have count1: "unat (CountRingBuffer ?rb1) = unat (CountRingBuffer rb) - 1"
    using one by (simp add: Count_advance_read unat_sub)
  have size1: "unat (Size - 1) = unat Size - 1" using s0 by (rule unat_minus_one)
  have "unat (min (CountRingBuffer ?rb1) (Size - 1)) =
      min (unat (CountRingBuffer rb) - 1) (unat Size - 1)"
    by (simp only: unat_min count1 size1)
  also have "\<dots> = n" using m by (auto simp: min_def split: if_splits)
  finally have n1: "n = unat (min (CountRingBuffer ?rb1) (Size - 1))" by (rule sym)
  have k1: "k + 1 + n \<le> length ?Out1" using Suc.prems(5) by simp
  have r1: "unat (Capacity ?rb1) dvd 2 ^ 64 \<or> unat (ReadIndex ?rb1) + n \<le> 2 ^ 64"
    using Suc.prems(6) unat_succ_le [of "ReadIndex rb"] by auto
  note ih = Suc.IH [OF v1 c1 b1 n1 k1 r1]
  have sel: "ReadIndex ?rb1 = ReadIndex rb + 1" "Capacity ?rb1 = Capacity rb" by simp_all
  have tk: "take (k + 1) ?Out1 = take k Out @ [?b]"
    using kd by (simp add: take_Suc_conv_app_nth)
  have dr: "drop (k + 1 + n) ?Out1 = drop (k + Suc n) Out" by simp
  have nl: "Suc n \<le> length bs" using count cnt by (simp add: word_le_nat_alt len)
  have out: "copy_out bs (unat (ReadIndex rb + 1) mod ?cap) n = tl (copy_out bs ?i (Suc n))"
  proof (cases n)
    case 0
    then show ?thesis by (simp add: copy_out_0 copy_out_single [OF i])
  next
    case (Suc n')
    with Suc.prems(6) have "?cap dvd 2 ^ 64 \<or> unat (ReadIndex rb) + 1 < 2 ^ 64" by auto
    from unat_succ_mod [OF this] have "unat (ReadIndex rb + 1) mod ?cap = (?i + 1) mod length bs"
      by (simp add: len)
    then show ?thesis by (simp only: copy_out_Suc [OF i nl] list.sel)
  qed
  have hd: "copy_out bs ?i (Suc n) = ?b # tl (copy_out bs ?i (Suc n))"
    by (simp only: copy_out_Suc [OF i nl] list.sel)
  have "ReadRingBuffer_slow_loop rb Out k Size =
      ReadRingBuffer_slow_loop ?rb1 ?Out1 (k + 1) (Size - 1)"
    using ne s0 kd c bf i
    by (subst ReadRingBuffer_slow_loop.simps)
      (simp add: peek_def umod_def deref_def poke_def unat_mod)
  also have "\<dots> =
      Inr (?rb1\<lparr>ReadIndex := ReadIndex rb + 1 + of_nat n\<rparr>,
           (take k Out @ [?b]) @ tl (copy_out bs ?i (Suc n)) @ drop (k + Suc n) Out,
           k + 1 + n)"
    using ih by (simp only: sel out tk dr)
  also have "(take k Out @ [?b]) @ tl (copy_out bs ?i (Suc n)) @ drop (k + Suc n) Out =
      take k Out @ copy_out bs ?i (Suc n) @ drop (k + Suc n) Out"
    by (subst (2) hd) simp
  finally show ?case by (simp add: add.assoc)
qed

text \<open>
  Claim C9 as stated fails on a buffer whose write cursor is about to wrap around. On a fresh
  buffer of capacity 15, \<open>2 ^ 64 - 1\<close> rounds of writing and reading one byte lead to the
  well-formed state with both cursors at \<open>2 ^ 64 - 1\<close>, at offset 0. Writing the two
  bytes 1, 2 there, the split-copy version stores them at offsets 0 and 1; the byte-by-byte
  version takes the remainder of the cursor before each byte, stores 1 at offset 0, wraps
  the cursor to 0 and stores 2 at offset 0 as well. Both return 2; the stored bytes differ.
\<close>

theorem slow_fast_equivalence_counterexample:
  "run (fst (InitializeRingBuffer (Some zero_fill) 15))
     (concat (replicate (2 ^ 64 - 1) [WriteByte 0, ReadByte])) =
     Inr (parked (- 1), concat (replicate (2 ^ 64 - 1) [Written 1, Delivered 1 [0]])) \<and>
   valid (parked (- 1)) \<and>
   WriteRingBuffer (parked (- 1)) [1, 2] 2 =
     Inr (\<lparr>Buffer = Some [1, 2, 0, 0, 0, 0, 0, 0, 0, 0, 0, 0, 0, 0, 0], Capacity = 15,
            ReadIndex = - 1, WriteIndex = 1\<rparr>, 2) \<and>
   WriteRingBuffer_slow (parked (- 1)) [1, 2] 2 =
     Inr (\<lparr>Buffer = Some [2, 0, 0, 0, 0, 0, 0, 0, 0, 0, 0, 0, 0, 0, 0], Capacity = 15,
            ReadIndex = - 1, WriteIndex = 1\<rparr>, 2)"
proof -
  have x: "(0::size_t) + of_nat (2 ^ 64 - 1) = - 1" by simp
  from parked_byte_spin [of 0 "2 ^ 64 - 1"] have
    r: "run (parked 0) (concat (replicate (2 ^ 64 - 1) [WriteByte 0, ReadByte])) =
       Inr (parked (- 1), concat (replicate (2 ^ 64 - 1) [Written 1, Delivered 1 [0]]))"
    by (simp only: x)
  have v: "valid (parked (- 1))" by (simp add: valid_def parked_def CountRingBuffer_def)
  have f: "WriteRingBuffer (parked (- 1)) [1, 2] 2 =
     Inr (\<lparr>Buffer = Some [1, 2, 0, 0, 0, 0, 0, 0, 0, 0, 0, 0, 0, 0, 0], Capacity = 15,
            ReadIndex = - 1, WriteIndex = 1\<rparr>, 2)"
    by (simp add: parked_def WriteRingBuffer_def CountRingBuffer_def FreeSpaceRingBuffer_def
        umod_def deref_def memcpy_def Let_def word_le_nat_alt replicate_15 slot_minus_one)
  have s: "WriteRingBuffer_slow (parked (- 1)) [1, 2] 2 =
     Inr (\<lparr>Buffer = Some [2, 0, 0, 0, 0, 0, 0, 0, 0, 0, 0, 0, 0, 0, 0], Capacity = 15,
            ReadIndex = - 1, WriteIndex = 1\<rparr>, 2)"
    by (simp add: parked_def WriteRingBuffer_slow_def WriteRingBuffer_slow_loop.simps
        IsFullRingBuffer_v1_def FreeSpaceRingBuffer_v1_def
        umod_def deref_def peek_def poke_def replicate_15 slot_minus_one)
  from r v f s show ?thesis by (simp only: parked_fresh)
qed

text \<open>
  Claim C9 (the byte-by-byte and the split-copy versions agree), amended. On a well-formed
  buffer of capacity greater than 0, with a block of at least \<open>Size\<close> bytes, both versions
  return a result, and the byte-by-byte \<^verbatim>\<open>WriteRingBuffer\<close> returns the same count and
  the same structure (cursors, stored bytes) as the split-copy one provided the capacity
  divides \<open>2 ^ 64\<close> or the write cursor does not wrap around during the transfer
  (\<open>WriteIndex\<close> plus the count is at most \<open>2 ^ 64\<close>); the byte-by-byte
  \<^verbatim>\<open>ReadRingBuffer\<close> returns the same count, the same output block and the same structure
  as the split-copy one under the same proviso for \<open>ReadIndex\<close>.
\<close>

theorem slow_fast_equivalence:
  assumes v: "valid rb" and c: "Capacity rb \<noteq> 0" and d: "unat Size \<le> length Data"
  shows "(\<exists>rb' n. WriteRingBuffer rb Data Size = Inr (rb', n)) \<and>
         (\<exists>rb' Data' n. ReadRingBuffer rb Data Size = Inr (rb', Data', n)) \<and>
         (unat (Capacity rb) dvd 2 ^ 64 \<or>
          unat (WriteIndex rb) + unat (min (FreeSpaceRingBuffer rb) Size) \<le> 2 ^ 64 \<longrightarrow>
            WriteRingBuffer_slow rb Data Size = WriteRingBuffer rb Data Size) \<and>
         (unat (Capacity rb) dvd 2 ^ 64 \<or>
          unat (ReadIndex rb) + unat (min (CountRingBuffer rb) Size) \<le> 2 ^ 64 \<longrightarrow>
            ReadRingBuffer_slow rb Data Size = ReadRingBuffer rb Data Size)"
proof (intro conjI impI)
  from v c obtain bs where b: "Buffer rb = Some bs"
    by (auto simp: valid_def split: option.splits)
  note w = Write_char [OF v c b d] and r = Read_char [OF v c b d]
  from w show "\<exists>rb' n. WriteRingBuffer rb Data Size = Inr (rb', n)" by blast
  from r show "\<exists>rb' Data' n. ReadRingBuffer rb Data Size = Inr (rb', Data', n)" by blast
  {
    let ?n = "min (FreeSpaceRingBuffer rb) Size"
    assume p: "unat (Capacity rb) dvd 2 ^ 64 \<or> unat (WriteIndex rb) + unat ?n \<le> 2 ^ 64"
    have "unat ?n \<le> length Data" using d by (simp add: unat_min)
    then have k: "0 + unat ?n \<le> length Data" by simp
    from slow_write_loop [OF v c b refl k p]
    show "WriteRingBuffer_slow rb Data Size = WriteRingBuffer rb Data Size"
      by (simp add: WriteRingBuffer_slow_def w del: min_less_iff_conj)
  }
  {
    let ?n = "min (CountRingBuffer rb) Size"
    assume p: "unat (Capacity rb) dvd 2 ^ 64 \<or> unat (ReadIndex rb) + unat ?n \<le> 2 ^ 64"
    have "unat ?n \<le> length Data" using d by (simp add: unat_min)
    then have k: "0 + unat ?n \<le> length Data" by simp
    from slow_read_loop [OF v c b refl k p]
    show "ReadRingBuffer_slow rb Data Size = ReadRingBuffer rb Data Size"
      by (simp add: ReadRingBuffer_slow_def r del: min_less_iff_conj)
  }
qed

theorem slow_fast_equivalence_witness:
  "valid \<lparr>Buffer = Some [7, 8, 9], Capacity = 3, ReadIndex = 2, WriteIndex = 3\<rparr> \<and>
   WriteRingBuffer_slow \<lparr>Buffer = Some [7, 8, 9], Capacity = 3, ReadIndex = 2, WriteIndex = 3\<rparr>
       [1, 2, 3] 3 =
     Inr (\<lparr>Buffer = Some [1, 2, 9], Capacity = 3, ReadIndex = 2, WriteIndex = 5\<rparr>, 2) \<and>
   ReadRingBuffer_slow \<lparr>Buffer = Some [7, 8, 9], Capacity = 3, ReadIndex = 2, WriteIndex = 3\<rparr>
       [0, 0, 0] 3 =
     Inr (\<lparr>Buffer = Some [7, 8, 9], Capacity = 3, ReadIndex = 3, WriteIndex = 3\<rparr>, [9, 0, 0], 1)"
proof -
  let ?rb = "\<lparr>Buffer = Some [7, 8, 9], Capacity = 3, ReadIndex = 2, WriteIndex = 3\<rparr>"
  have v: "valid ?rb" by (simp add: valid_def CountRingBuffer_def word_le_nat_alt)
  have c: "Capacity ?rb \<noteq> 0" by simp
  have d: "unat (3::size_t) \<le> length [1, 2, 3 :: BYTE]" by simp
  have d': "unat (3::size_t) \<le> length [0, 0, 0 :: BYTE]" by simp
  have w: "WriteRingBuffer ?rb [1, 2, 3] 3 =
      Inr (\<lparr>Buffer = Some [1, 2, 9], Capacity = 3, ReadIndex = 2, WriteIndex = 5\<rparr>, 2)"
    by (simp add: WriteRingBuffer_def CountRingBuffer_def FreeSpaceRingBuffer_def umod_def
        deref_def memcpy_def Let_def word_le_nat_alt)
  have r: "ReadRingBuffer ?rb [0, 0, 0] 3 =
      Inr (\<lparr>Buffer = Some [7, 8, 9], Capacity = 3, ReadIndex = 3, WriteIndex = 3\<rparr>, [9, 0, 0], 1)"
    by (simp add: ReadRingBuffer_def CountRingBuffer_def umod_def
        deref_def memcpy_def Let_def word_le_nat_alt)
  have pw: "unat (WriteIndex ?rb) + unat (min (FreeSpaceRingBuffer ?rb) 3) \<le> 2 ^ 64"
    by (simp add: FreeSpaceRingBuffer_def CountRingBuffer_def)
  have pr: "unat (ReadIndex ?rb) + unat (min (CountRingBuffer ?rb) 3) \<le> 2 ^ 64"
    by (simp add: CountRingBuffer_def)
  from slow_fast_equivalence [OF v c d] pw have "WriteRingBuffer_slow ?rb [1, 2, 3] 3 =
      WriteRingBuffer ?rb [1, 2, 3] 3" by blast
  moreover from slow_fast_equivalence [OF v c d'] pr have "ReadRingBuffer_slow ?rb [0, 0, 0] 3 =
      ReadRingBuffer ?rb [0, 0, 0] 3" by blast
  ultimately show ?thesis using v by (simp only: w r)
qed

section \<open>The first variant against the guarded one\<close>

text \<open>
  For a capacity of 0 the first variant returns 0, the value by which it reports a failed
  initialisation, and a \<^verbatim>\<open>WriteRingBuffer\<close> on the structure takes a remainder by zero.
  For a positive capacity the two variants do the same.
\<close>

lemma Initialize_v1_zero:
  "snd (InitializeRingBuffer_v1 heap 0) = 0 \<and> Capacity (fst (InitializeRingBuffer_v1 heap 0)) = 0 \<and>
   Buffer (fst (InitializeRingBuffer_v1 heap 0)) = malloc heap 0"
  by (simp add: InitializeRingBuffer_v1_def Let_def zeroed_def)

lemma Initialize_v1_positive:
  "0 < c \<Longrightarrow> InitializeRingBuffer_v1 heap c = InitializeRingBuffer heap c"
  by (simp add: InitializeRingBuffer_v1_def InitializeRingBuffer_def Let_def)

lemma Write_v1_zero_capacity:
  "Capacity rb = 0 \<Longrightarrow> WriteRingBuffer_v1 rb Data Size = Inl DivideByZero"
  by (simp add: WriteRingBuffer_v1_def umod_def)

lemma FreeSpace_v1: "FreeSpaceRingBuffer_v1 rb = FreeSpaceRingBuffer rb"
  by (simp add: FreeSpaceRingBuffer_v1_def FreeSpaceRingBuffer_def CountRingBuffer_def)

lemma Write_v1_positive:
  assumes v: "valid rb" and c: "Capacity rb \<noteq> 0" and d: "unat Size \<le> length Data"
  shows "WriteRingBuffer_v1 rb Data Size = WriteRingBuffer rb Data Size"
proof (cases "min (FreeSpaceRingBuffer rb) Size = 0")
  case False
  with c show ?thesis
    by (simp add: WriteRingBuffer_v1_def WriteRingBuffer_def FreeSpace_v1 Let_def)
next
  case True
  from v c obtain bs where b: "Buffer rb = Some bs" and len: "length bs = unat (Capacity rb)"
    by (auto simp: valid_def split: option.splits)
  from c have "0 < unat (Capacity rb)" by (simp add: unat_gt_0)
  then have "unat (WriteIndex rb) mod unat (Capacity rb) < length bs" by (simp add: len)
  then have m: "memcpy bs (unat (WriteIndex rb) mod unat (Capacity rb)) Data 0 0 = Inr bs"
    by (simp add: memcpy_def)
  have "rb\<lparr>Buffer := Some bs\<rparr> = rb" using b by simp
  with True c b m show ?thesis
    by (simp add: WriteRingBuffer_v1_def WriteRingBuffer_def FreeSpace_v1 Let_def umod_def
        deref_def unat_mod)
qed

end
